theory Spec2Isabelle
  imports Main "HOL-Library.Word"
begin

section \<open>Buffers and JavaScript values\<close>

text \<open>
  A Node.js \<open>Buffer\<close> is a list of bytes. A checked read raises a \<open>RangeError\<close> when
  the bytes it needs are not all inside the buffer; \<open>slice\<close> never raises, it clamps
  both ends to the buffer. A call of \<open>putImageData\<close> with a value that is not an
  \<open>ImageData\<close> raises a \<open>TypeError\<close>. These are the two errors that the code below can
  raise.
\<close>

type_synonym byte = "8 word"
type_synonym buffer = "byte list"

datatype error = RangeError | TypeError

text \<open>\<open>buffer.readUInt8(offset)\<close>\<close>

definition readUInt8 :: "buffer \<Rightarrow> nat \<Rightarrow> error + nat" where
  "readUInt8 buffer offset =
     (if offset < length buffer then Inr (unat (buffer ! offset)) else Inl RangeError)"

text \<open>\<open>buffer.readUIntLE(offset, byteLength)\<close>: little-endian, least significant byte first.\<close>

fun littleEndian :: "byte list \<Rightarrow> nat" where
  "littleEndian [] = 0"
| "littleEndian (b # bs) = unat b + 256 * littleEndian bs"

definition readUIntLE :: "buffer \<Rightarrow> nat \<Rightarrow> nat \<Rightarrow> error + nat" where
  "readUIntLE buffer offset byteLength =
     (if offset + byteLength \<le> length buffer
      then Inr (littleEndian (take byteLength (drop offset buffer)))
      else Inl RangeError)"

text \<open>\<open>buffer.slice(start, end)\<close> and \<open>buffer.slice(start)\<close>\<close>

definition slice_buf :: "buffer \<Rightarrow> nat \<Rightarrow> nat \<Rightarrow> buffer" where
  "slice_buf buffer start end = take (end - start) (drop start buffer)"

definition slice_from :: "buffer \<Rightarrow> nat \<Rightarrow> buffer" where
  "slice_from buffer start = drop start buffer"

text \<open>
  A JavaScript string is its list of UTF-16 code units. The values that a table can
  hold under a key are a string, an integer number, or nothing (\<open>undefined\<close>).
\<close>

type_synonym jsstring = "nat list"

datatype jsvalue = JUndefined | JNumber int | JString jsstring

definition ascii :: "string \<Rightarrow> jsstring" where
  "ascii s = map of_char s"

subsection \<open>Text of a marker: windows-1252\<close>

text \<open>
  \<open>windows1252.decode(descriptionBuffer.toString('binary'))\<close>: every byte is one
  character. Bytes below 0x80 and from 0xA0 on are the code point of the same number;
  the 32 bytes between have the code points of the windows-1252 index.
\<close>

definition windows1252_index :: "nat list" where
  "windows1252_index =
     [0x20AC, 0x0081, 0x201A, 0x0192, 0x201E, 0x2026, 0x2020, 0x2021,
      0x02C6, 0x2030, 0x0160, 0x2039, 0x0152, 0x008D, 0x017D, 0x008F,
      0x0090, 0x2018, 0x2019, 0x201C, 0x201D, 0x2022, 0x2013, 0x2014,
      0x02DC, 0x2122, 0x0161, 0x203A, 0x0153, 0x009D, 0x017E, 0x0178]"

definition windows1252_char :: "byte \<Rightarrow> nat" where
  "windows1252_char b =
     (if 0x80 \<le> unat b \<and> unat b < 0xA0 then windows1252_index ! (unat b - 0x80) else unat b)"

definition windows1252_decode :: "buffer \<Rightarrow> jsstring" where
  "windows1252_decode bs = map windows1252_char bs"

subsection \<open>JSON.stringify and toLowerCase\<close>

text \<open>
  \<open>String.prototype.toLowerCase\<close> on the characters that occur here (Basic Latin,
  Latin-1 and the windows-1252 additions): one code unit for each code unit.
\<close>

definition lowerCodeUnit :: "nat \<Rightarrow> nat" where
  "lowerCodeUnit c =
     (if 0x41 \<le> c \<and> c \<le> 0x5A then c + 0x20
      else if 0xC0 \<le> c \<and> c \<le> 0xDE \<and> c \<noteq> 0xD7 then c + 0x20
      else if c = 0x0152 \<or> c = 0x0160 \<or> c = 0x017D then c + 1
      else if c = 0x0178 then 0xFF
      else c)"

definition toLowerCase :: "jsstring \<Rightarrow> jsstring" where
  "toLowerCase s = map lowerCodeUnit s"

text \<open>Numbers print in decimal.\<close>

fun decimal :: "nat \<Rightarrow> jsstring" where
  "decimal n = (if n < 10 then [48 + n] else decimal (n div 10) @ [48 + n mod 10])"

declare decimal.simps [simp del]

definition numberToString :: "int \<Rightarrow> jsstring" where
  "numberToString i = (if i < 0 then 45 # decimal (nat (- i)) else decimal (nat i))"

text \<open>
  A string prints between double quotes (code unit 34); a double quote and a
  backslash (92) get a backslash before them, the control characters print as
  \<open>\b \t \n \f \r\<close> or as \<open>\u00XX\<close> with lower-case hexadecimal digits.
\<close>

definition hexDigit :: "nat \<Rightarrow> nat" where
  "hexDigit d = (if d < 10 then 48 + d else 87 + d)"

definition quoteCodeUnit :: "nat \<Rightarrow> jsstring" where
  "quoteCodeUnit c =
     (if c = 8 then [92, 98]
      else if c = 9 then [92, 116]
      else if c = 10 then [92, 110]
      else if c = 12 then [92, 102]
      else if c = 13 then [92, 114]
      else if c = 34 then [92, 34]
      else if c = 92 then [92, 92]
      else if c < 32 then [92, 117, 48, 48, hexDigit (c div 16), hexDigit (c mod 16)]
      else [c])"

definition quoteJSONString :: "jsstring \<Rightarrow> jsstring" where
  "quoteJSONString s = [34] @ concat (map quoteCodeUnit s) @ [34]"

section \<open>Markers\<close>

text \<open>
  The object that \<open>parseMarkerData\<close> builds for one record. \<open>sortObject\<close> orders its
  keys alphabetically: description, icon, x, y, z.
\<close>

record marker =
  m_description :: jsstring
  m_icon :: jsvalue
  m_x :: nat
  m_y :: nat
  m_z :: int

text \<open>
  \<open>JSON.stringify(marker)\<close>: the members in the order of the keys; a member whose
  value is \<open>undefined\<close> is left out.
\<close>

definition stringifyMember :: "string \<Rightarrow> jsstring \<Rightarrow> jsstring" where
  "stringifyMember key val = [34] @ ascii key @ [34, 58] @ val"

definition stringifyIcon :: "jsvalue \<Rightarrow> jsstring" where
  "stringifyIcon v =
     (case v of
        JUndefined \<Rightarrow> []
      | JNumber i \<Rightarrow> [44] @ stringifyMember ''icon'' (numberToString i)
      | JString s \<Rightarrow> [44] @ stringifyMember ''icon'' (quoteJSONString s))"

definition stringify :: "marker \<Rightarrow> jsstring" where
  "stringify m =
     [123] @ stringifyMember ''description'' (quoteJSONString (m_description m))
       @ stringifyIcon (m_icon m)
       @ [44] @ stringifyMember ''x'' (decimal (m_x m))
       @ [44] @ stringifyMember ''y'' (decimal (m_y m))
       @ [44] @ stringifyMember ''z'' (numberToString (m_z m))
       @ [125]"

definition serialized :: "marker \<Rightarrow> jsstring" where
  "serialized m = toLowerCase (stringify m)"

subsection \<open>parseMarkerData\<close>

text \<open>
  The body of the \<open>while\<close> loop: one record read at \<open>index\<close>, giving the marker and the
  index after the record. The table \<open>icons.byID\<close> is not among the sources and is a
  parameter. The two \<open>console.assert(index++, 0x00)\<close> after each coordinate pair test
  the index, which is never zero there, and read no byte: they only advance the index.

  The byte reads are written \<open>buffer.readUInt8(index++, 1)\<close>. Node.js from version 10 on
  ignores the second argument and checks the offset. Older versions take it as
  \<open>noAssert\<close> and do not check these four reads; the reads of the image ID and of the
  text length that follow are checked there too, and raise the same \<open>RangeError\<close> in the
  same case, which is that the fourteen bytes from \<open>index\<close> on are not all in the buffer.
\<close>

definition readMarker ::
  "(nat \<Rightarrow> jsvalue) \<Rightarrow> buffer \<Rightarrow> int \<Rightarrow> nat \<Rightarrow> error + (marker \<times> nat)" where
  "readMarker byID buffer floor index =
     (case readUInt8 buffer index of Inl e \<Rightarrow> Inl e | Inr xOffset \<Rightarrow>
      case readUInt8 buffer (index + 1) of Inl e \<Rightarrow> Inl e | Inr xTile \<Rightarrow>
      case readUInt8 buffer (index + 4) of Inl e \<Rightarrow> Inl e | Inr yOffset \<Rightarrow>
      case readUInt8 buffer (index + 5) of Inl e \<Rightarrow> Inl e | Inr yTile \<Rightarrow>
      case readUIntLE buffer (index + 8) 4 of Inl e \<Rightarrow> Inl e | Inr imageID \<Rightarrow>
      case readUIntLE buffer (index + 12) 2 of Inl e \<Rightarrow> Inl e | Inr descriptionLength \<Rightarrow>
        (let descriptionBuffer = slice_buf buffer (index + 14) (index + 14 + descriptionLength)
         in Inr (\<lparr> m_description = windows1252_decode descriptionBuffer,
                   m_icon = byID imageID,
                   m_x = xTile * 256 + xOffset,
                   m_y = yTile * 256 + yOffset,
                   m_z = floor \<rparr>,
                 index + 14 + descriptionLength)))"

text \<open>\<open>while (markers.length < markerCount) { ...; markers.push(sorted); }\<close>\<close>

function whileMarkers ::
  "(nat \<Rightarrow> jsvalue) \<Rightarrow> buffer \<Rightarrow> int \<Rightarrow> nat \<Rightarrow> nat \<Rightarrow> marker list \<Rightarrow> error + marker list" where
  "whileMarkers byID buffer floor markerCount index markers =
     (if length markers < markerCount
      then (case readMarker byID buffer floor index of
              Inl e \<Rightarrow> Inl e
            | Inr (marker, index') \<Rightarrow>
                whileMarkers byID buffer floor markerCount index' (markers @ [marker]))
      else Inr markers)"
  by pat_completeness auto
termination
  by (relation "measure (\<lambda>(byID, buffer, floor, markerCount, index, markers).
                   markerCount - length markers)") auto

declare whileMarkers.simps [simp del]

text \<open>
  \<open>markers.sort((a, b) => (a.x * 100000 + a.y) - (b.x * 100000 + b.y))\<close>: a sort on
  the key, stable as \<open>Array.prototype.sort\<close> is since ECMAScript 2019 (before that,
  markers with equal keys could change places in arrays of more than ten).
\<close>

definition sortKey :: "marker \<Rightarrow> nat" where
  "sortKey a = m_x a * 100000 + m_y a"

definition sortMarkers :: "marker list \<Rightarrow> marker list" where
  "sortMarkers markers = sort_key sortKey markers"

text \<open>
  The filter that removes duplicates: \<open>seen\<close> is the \<open>Set\<close> of the serialized markers
  met so far.
\<close>

fun filterUnique :: "jsstring set \<Rightarrow> marker list \<Rightarrow> marker list" where
  "filterUnique seen [] = []"
| "filterUnique seen (marker # markers) =
     (let serialized = serialized marker;
          isDuplicate = serialized \<in> seen
      in if isDuplicate then filterUnique (insert serialized seen) markers
         else marker # filterUnique (insert serialized seen) markers)"

definition parseMarkerData :: "(nat \<Rightarrow> jsvalue) \<Rightarrow> buffer \<Rightarrow> int \<Rightarrow> error + marker list" where
  "parseMarkerData byID buffer floor =
     (case readUIntLE buffer 0 4 of
        Inl e \<Rightarrow> Inl e
      | Inr markerCount \<Rightarrow>
          if markerCount = 0 then Inr []
          else (case whileMarkers byID buffer floor markerCount 4 [] of
                  Inl e \<Rightarrow> Inl e
                | Inr markers \<Rightarrow> Inr (filterUnique {} (sortMarkers markers))))"

section \<open>Palettes\<close>

text \<open>\<open>colors.js\<close>: the table \<open>byByte\<close> of the visual layer and the special bytes.\<close>

type_synonym color = "nat \<times> nat \<times> nat"

definition byByte_entries :: "(nat \<times> color) list" where
  "byByte_entries =
     [(0x00, (0, 0, 0)),
      (0x0C, (0, 102, 0)),
      (0x18, (0, 204, 0)),
      (0x33, (51, 102, 153)),
      (0x56, (102, 102, 102)),
      (0x72, (153, 51, 0)),
      (0x79, (153, 102, 51)),
      (0x81, (153, 153, 153)),
      (0x8C, (153, 255, 102)),
      (0xB3, (204, 255, 255)),
      (0xBA, (255, 51, 0)),
      (0xC0, (255, 102, 0)),
      (0xCF, (255, 204, 153)),
      (0xD2, (255, 255, 0)),
      (0xD7, (255, 255, 255))]"

definition byByte :: "nat \<rightharpoonup> color" where
  "byByte = map_of byByte_entries"

definition unexploredMapByte :: nat where
  "unexploredMapByte = 0x00"

definition unexploredPathByte :: nat where
  "unexploredPathByte = 0xFA"

definition nonWalkablePathByte :: nat where
  "nonWalkablePathByte = 0xFF"

definition unexploredMap :: color where
  "unexploredMap = the (byByte unexploredMapByte)"

definition nonWalkablePath :: color where
  "nonWalkablePath = the (byByte 0xD2)"

definition unexploredPath :: color where
  "unexploredPath = (0xFA, 0xFA, 0xFA)"

text \<open>
  Canvas pixels are \<open>(r, g, b, a)\<close>. An \<open>ImageData\<close> has a size and a pixel for every
  column and row; a canvas (with its 2d context) likewise. A new canvas is transparent
  black. \<open>putImageData\<close> copies the image to the canvas at an offset, without blending,
  and leaves out what falls outside the canvas.
\<close>

type_synonym rgba = "nat \<times> nat \<times> nat \<times> nat"

record imageData =
  iwidth :: nat
  iheight :: nat
  idata :: "nat \<Rightarrow> nat \<Rightarrow> rgba"

record canvas =
  cwidth :: nat
  cheight :: nat
  cpixels :: "nat \<Rightarrow> nat \<Rightarrow> rgba"

definition newCanvas :: "nat \<Rightarrow> nat \<Rightarrow> canvas" where
  "newCanvas w h = \<lparr> cwidth = w, cheight = h, cpixels = (\<lambda>col row. (0, 0, 0, 0)) \<rparr>"

definition putImageData :: "imageData \<Rightarrow> int \<Rightarrow> int \<Rightarrow> canvas \<Rightarrow> canvas" where
  "putImageData img dx dy context =
     context \<lparr> cpixels := (\<lambda>col row.
        if col < cwidth context \<and> row < cheight context
           \<and> dx \<le> int col \<and> int col < dx + int (iwidth img)
           \<and> dy \<le> int row \<and> int row < dy + int (iheight img)
        then idata img (nat (int col - dx)) (nat (int row - dy))
        else cpixels context col row) \<rparr>"

definition getImageData :: "canvas \<Rightarrow> nat \<Rightarrow> nat \<Rightarrow> nat \<Rightarrow> nat \<Rightarrow> imageData" where
  "getImageData context sx sy sw sh =
     \<lparr> iwidth = sw, iheight = sh,
       idata = (\<lambda>col row.
         if col < sw \<and> row < sh \<and> sx + col < cwidth context \<and> sy + row < cheight context
         then cpixels context (sx + col) (sy + row) else (0, 0, 0, 0)) \<rparr>"

text \<open>
  \<open>createImageData(1, 1)\<close> with \<open>data[0..3]\<close> set to the colour and \<open>0xFF\<close>: the palette
  entry of one byte.
\<close>

definition pixelImageData :: "color \<Rightarrow> imageData" where
  "pixelImageData c =
     (case c of (r, g, b) \<Rightarrow>
        \<lparr> iwidth = 1, iheight = 1,
          idata = (\<lambda>col row. if col < 1 \<and> row < 1 then (r, g, b, 0xFF) else (0, 0, 0, 0)) \<rparr>)"

text \<open>\<open>Object.keys(colors.byByte).forEach(...)\<close>\<close>

definition mapPixelPalette :: "nat \<rightharpoonup> imageData" where
  "mapPixelPalette =
     fold (\<lambda>pixelByte palette.
             let color = the (byByte pixelByte)
             in palette(pixelByte \<mapsto> pixelImageData color))
          (map fst byByte_entries) Map.empty"

text \<open>\<open>for (const pixelByte of range(0, 255 + 1))\<close>, then the entry for unexplored paths.\<close>

definition range :: "nat \<Rightarrow> nat \<Rightarrow> nat list" where
  "range start end = [start..<end]"

definition pathPixelPalette :: "nat \<rightharpoonup> imageData" where
  "pathPixelPalette =
     (fold (\<lambda>pixelByte palette.
              let isNonWalkable = (pixelByte = nonWalkablePathByte);
                  component = pixelByte;
                  color = (if isNonWalkable then nonWalkablePath
                           else (component, component, component))
              in palette(pixelByte \<mapsto> pixelImageData color))
           (range 0 (255 + 1)) Map.empty)
       (unexploredPathByte \<mapsto> pixelImageData unexploredPath)"

section \<open>Rendering a tile\<close>

text \<open>
  What the program prints. \<open>console.assert(pixel, ...)\<close> prints its message when the
  palette has no entry for the byte; the byte is \<open>None\<close> when the buffer has no byte
  at the index (\<open>undefined\<close>).
\<close>

datatype message =
    AssertUnknownColorID "nat option"
  | WarnInvalidMarkerData string
  | LogFixMarkerData string
  | LogRenderingFloor string
  | ErrorStack error

type_synonym console = "message list"

text \<open>\<open>buffer[i]\<close>: \<open>undefined\<close> outside the buffer.\<close>

definition byteAt :: "buffer \<Rightarrow> int \<Rightarrow> nat option" where
  "byteAt buffer i =
     (if 0 \<le> i \<and> nat i < length buffer then Some (unat (buffer ! nat i)) else None)"

definition paletteAt :: "(nat \<rightharpoonup> imageData) \<Rightarrow> nat option \<Rightarrow> imageData option" where
  "paletteAt palette pixelByte = (case pixelByte of None \<Rightarrow> None | Some b \<Rightarrow> palette b)"

definition consoleAssert :: "bool \<Rightarrow> message \<Rightarrow> console \<Rightarrow> console" where
  "consoleAssert ok msg con = (if ok then con else con @ [msg])"

text \<open>
  \<open>renderMap\<close>. The inner loop \<open>while (++yIndex < 256)\<close> of one \<open>xIndex\<close>; it returns
  \<open>bufferIndex\<close> and the context. For a byte that the palette does not have,
  \<open>console.assert\<close> prints its message and goes on (Node.js from version 10 on; in older
  versions it is the assertion that raises), and \<open>putImageData\<close>, called with the
  missing entry, raises.
\<close>

function renderMapInner ::
  "buffer \<Rightarrow> int \<Rightarrow> int \<Rightarrow> int \<Rightarrow> canvas \<Rightarrow> console \<Rightarrow> (error + int \<times> canvas) \<times> console" where
  "renderMapInner buffer xIndex yIndex bufferIndex context con =
     (if yIndex + 1 < 256
      then (let pixelByte = byteAt buffer (bufferIndex + 1);
                pixel = paletteAt mapPixelPalette pixelByte;
                con' = consoleAssert (pixel \<noteq> None) (AssertUnknownColorID pixelByte) con
            in case paletteAt mapPixelPalette pixelByte of
                 None \<Rightarrow> (Inl TypeError, con')
               | Some img \<Rightarrow>
                   renderMapInner buffer xIndex (yIndex + 1) (bufferIndex + 1)
                     (putImageData img xIndex (yIndex + 1) context) con')
      else (Inr (bufferIndex, context), con))"
  by pat_completeness auto
termination
  by (relation "measure (\<lambda>(buffer, xIndex, yIndex, bufferIndex, context, con).
                   nat (256 - yIndex))") auto

declare renderMapInner.simps [simp del]

text \<open>The outer loop \<open>while (++xIndex < 256) { let yIndex = -1; ... }\<close>.\<close>

function renderMapOuter ::
  "buffer \<Rightarrow> int \<Rightarrow> int \<Rightarrow> canvas \<Rightarrow> console \<Rightarrow> (error + int \<times> canvas) \<times> console" where
  "renderMapOuter buffer xIndex bufferIndex context con =
     (if xIndex + 1 < 256
      then (case renderMapInner buffer (xIndex + 1) (- 1) bufferIndex context con of
              (Inl e, con') \<Rightarrow> (Inl e, con')
            | (Inr (bufferIndex', context'), con') \<Rightarrow>
                renderMapOuter buffer (xIndex + 1) bufferIndex' context' con')
      else (Inr (bufferIndex, context), con))"
  by pat_completeness auto
termination
  by (relation "measure (\<lambda>(buffer, xIndex, bufferIndex, context, con).
                   nat (256 - xIndex))") auto

declare renderMapOuter.simps [simp del]

definition renderMap :: "buffer \<Rightarrow> console \<Rightarrow> (error + imageData) \<times> console" where
  "renderMap buffer con =
     (case renderMapOuter buffer (- 1) (- 1) (newCanvas 256 256) con of
        (Inl e, con') \<Rightarrow> (Inl e, con')
      | (Inr (bufferIndex, context), con') \<Rightarrow> (Inr (getImageData context 0 0 256 256), con'))"

text \<open>\<open>renderPath\<close>: the same loops on the pathfinding palette, without the assertion.\<close>

function renderPathInner ::
  "buffer \<Rightarrow> int \<Rightarrow> int \<Rightarrow> int \<Rightarrow> canvas \<Rightarrow> error + int \<times> canvas" where
  "renderPathInner buffer xIndex yIndex bufferIndex context =
     (if yIndex + 1 < 256
      then (let pixelByte = byteAt buffer (bufferIndex + 1)
            in case paletteAt pathPixelPalette pixelByte of
                 None \<Rightarrow> Inl TypeError
               | Some img \<Rightarrow>
                   renderPathInner buffer xIndex (yIndex + 1) (bufferIndex + 1)
                     (putImageData img xIndex (yIndex + 1) context))
      else Inr (bufferIndex, context))"
  by pat_completeness auto
termination
  by (relation "measure (\<lambda>(buffer, xIndex, yIndex, bufferIndex, context).
                   nat (256 - yIndex))") auto

declare renderPathInner.simps [simp del]

function renderPathOuter ::
  "buffer \<Rightarrow> int \<Rightarrow> int \<Rightarrow> canvas \<Rightarrow> error + int \<times> canvas" where
  "renderPathOuter buffer xIndex bufferIndex context =
     (if xIndex + 1 < 256
      then (case renderPathInner buffer (xIndex + 1) (- 1) bufferIndex context of
              Inl e \<Rightarrow> Inl e
            | Inr (bufferIndex', context') \<Rightarrow>
                renderPathOuter buffer (xIndex + 1) bufferIndex' context')
      else Inr (bufferIndex, context))"
  by pat_completeness auto
termination
  by (relation "measure (\<lambda>(buffer, xIndex, bufferIndex, context).
                   nat (256 - xIndex))") auto

declare renderPathOuter.simps [simp del]

definition renderPath :: "buffer \<Rightarrow> error + imageData" where
  "renderPath buffer =
     (case renderPathOuter buffer (- 1) (- 1) (newCanvas 256 256) of
        Inl e \<Rightarrow> Inl e
      | Inr (bufferIndex, context) \<Rightarrow> Inr (getImageData context 0 0 256 256))"

section \<open>Tiles and floors\<close>

text \<open>
  The state of the module: \<open>GLOBALS.bounds\<close>, the two floor canvases behind
  \<open>GLOBALS.mapContext\<close> and \<open>GLOBALS.pathContext\<close>, the object \<open>markers\<close>, and the
  console. The bounds come from \<open>generate-bounds.js\<close>.
\<close>

record bounds =
  xMin :: int
  yMin :: int
  width :: nat
  height :: nat

record coordinates =
  cx :: int
  cy :: int
  cz :: int

text \<open>
  A map file as \<open>drawMapSection\<close> sees it: its name, \<open>path.basename(fileName, '.map')\<close>,
  what \<open>idToXyz\<close> gives for that (\<open>id-to-xyz.js\<close> is not among the sources), and the
  bytes that \<open>fs.readFile\<close> delivers. Files that cannot be read are not modelled.
\<close>

record mapFile =
  fileName :: string
  tileID :: string
  tileCoordinates :: coordinates
  contents :: buffer

record globals =
  bounds :: bounds
  mapContext :: canvas
  pathContext :: canvas
  markers :: "string \<rightharpoonup> marker list"
  console :: console

text \<open>
  \<open>drawMapSection\<close>. The result is the state after the call and the error that was
  raised, if any: what was painted or printed before the error stays.
\<close>

definition drawMapSection ::
  "(nat \<Rightarrow> jsvalue) \<Rightarrow> mapFile \<Rightarrow> bool \<Rightarrow> globals \<Rightarrow> globals \<times> error option" where
  "drawMapSection byID file includeMarkers g =
     (let id' = tileID file;
          coords = tileCoordinates file;
          xOffset = (cx coords - xMin (bounds g)) * 256;
          yOffset = (cy coords - yMin (bounds g)) * 256;
          buffer = contents file;
          mapData = slice_buf buffer 0 0x10000
      in case renderMap mapData (console g) of
           (Inl e, con) \<Rightarrow> (g \<lparr> console := con \<rparr>, Some e)
         | (Inr mapImageData, con) \<Rightarrow>
             (let g1 = g \<lparr> console := con,
                          mapContext := putImageData mapImageData xOffset yOffset (mapContext g) \<rparr>;
                  pathData = slice_buf buffer 0x10000 0x20000
              in case renderPath pathData of
                   Inl e \<Rightarrow> (g1, Some e)
                 | Inr pathImageData \<Rightarrow>
                     (let g2 = g1 \<lparr> pathContext :=
                                  putImageData pathImageData xOffset yOffset (pathContext g1) \<rparr>;
                          markerData = slice_from buffer 0x20000;
                          g3 = (if length markerData = 0
                                then g2 \<lparr> console := console g2 @
                                       [WarnInvalidMarkerData (fileName file),
                                        LogFixMarkerData (fileName file)] \<rparr>
                                else g2)
                      in if includeMarkers
                         then (case parseMarkerData byID markerData (cz coords) of
                                 Inl e \<Rightarrow> (g3, Some e)
                               | Inr results \<Rightarrow>
                                   (if length results \<noteq> 0
                                    then g3 \<lparr> markers := (markers g3)(id' \<mapsto> results) \<rparr>
                                    else g3, None))
                         else (g3, None))))"

text \<open>
  \<open>handle-sequence.js\<close> is not among the sources, so the helper is a parameter of
  \<open>renderFloor\<close> below: a function that takes the call for one file, the files and the
  state, and gives the state after the sequence and the error that ended it, if one did.
\<close>

type_synonym sequencer =
  "(mapFile \<Rightarrow> globals \<Rightarrow> globals \<times> error option) \<Rightarrow> mapFile list \<Rightarrow> globals
     \<Rightarrow> globals \<times> error option"

text \<open>
  An assumption about that helper, which is neither source nor spec. The spec says of
  the tile files of a floor only that they are processed sequentially, one after the
  other; \<open>sequentialUntilError\<close> adds that a call that raises ends the sequence with
  its error, so that no later file is processed. The reason is where \<open>drawMapSection\<close>
  raises: inside the callback of \<open>fs.readFile\<close>, after the executor of its promise has
  returned, so the promise is neither resolved nor rejected and the exception is an
  uncaught one of the Node.js process. Every theorem about a whole floor that needs
  this names it in a hypothesis.
\<close>

fun sequentialUntilError ::
  "('a \<Rightarrow> 's \<Rightarrow> 's \<times> error option) \<Rightarrow> 'a list \<Rightarrow> 's \<Rightarrow> 's \<times> error option" where
  "sequentialUntilError f [] s = (s, None)"
| "sequentialUntilError f (item # items) s =
     (case f item s of
        (s', Some e) \<Rightarrow> (s', Some e)
      | (s', None) \<Rightarrow> sequentialUntilError f items s')"

text \<open>
  \<open>resetContext\<close>: the rectangle of the bounds filled with one colour (the fill style
  is taken as the colour it names).
\<close>

definition resetContext :: "canvas \<Rightarrow> color \<Rightarrow> bounds \<Rightarrow> canvas" where
  "resetContext context fillStyle b =
     (case fillStyle of (r, g, bl) \<Rightarrow>
        context \<lparr> cpixels := (\<lambda>col row.
          if col < cwidth context \<and> row < cheight context \<and> col < width b \<and> row < height b
          then (r, g, bl, 0xFF) else cpixels context col row) \<rparr>)"

text \<open>
  What one floor hands to \<open>saveCanvasToPNG\<close> (twice) and to \<open>writeJSON\<close>, and
  \<open>renderFloor\<close>, with the helper \<open>handleSequence\<close> as its first argument: its result
  is the state after the floor and either this output or the error that ended the
  sequence, whose stack is printed.
\<close>

record floorOutput =
  mapPNG :: canvas
  pathPNG :: canvas
  markersJSON :: "string \<rightharpoonup> marker list"

definition renderFloor ::
  "sequencer \<Rightarrow> (nat \<Rightarrow> jsvalue) \<Rightarrow> string \<Rightarrow> mapFile list \<Rightarrow> bool \<Rightarrow> globals
     \<Rightarrow> globals \<times> (error + floorOutput)" where
  "renderFloor handleSequence byID floorID files includeMarkers g =
     (let g0 = g \<lparr> console := console g @ [LogRenderingFloor floorID],
                  mapContext := resetContext (mapContext g) unexploredMap (bounds g),
                  pathContext := resetContext (pathContext g) unexploredPath (bounds g),
                  markers := Map.empty \<rparr>
      in case handleSequence (\<lambda>file. drawMapSection byID file includeMarkers) files g0 of
           (g', Some e) \<Rightarrow> (g' \<lparr> console := console g' @ [ErrorStack e] \<rparr>, Inl e)
         | (g', None) \<Rightarrow>
             (g', Inr \<lparr> mapPNG = mapContext g', pathPNG = pathContext g',
                        markersJSON = (if includeMarkers then markers g' else Map.empty) \<rparr>))"

section \<open>The layout of a marker block\<close>

text \<open>
  The layout as the map file format describes it, to state what the decoder does with
  a block: one record is an x offset, an x tile, two blank bytes, a y offset, a y tile,
  two blank bytes, four bytes of image ID and two bytes of text length (little-endian)
  and the text; a block is four bytes of record count and the records.
\<close>

record markerRecord =
  rec_xOffset :: byte
  rec_xTile :: byte
  rec_xBlank1 :: byte
  rec_xBlank2 :: byte
  rec_yOffset :: byte
  rec_yTile :: byte
  rec_yBlank1 :: byte
  rec_yBlank2 :: byte
  rec_imageID :: nat
  rec_text :: buffer

fun uintLE :: "nat \<Rightarrow> nat \<Rightarrow> byte list" where
  "uintLE 0 v = []"
| "uintLE (Suc n) v = word_of_nat (v mod 256) # uintLE n (v div 256)"

definition recordBytes :: "markerRecord \<Rightarrow> byte list" where
  "recordBytes r =
     [rec_xOffset r, rec_xTile r, rec_xBlank1 r, rec_xBlank2 r,
      rec_yOffset r, rec_yTile r, rec_yBlank1 r, rec_yBlank2 r]
     @ uintLE 4 (rec_imageID r) @ uintLE 2 (length (rec_text r)) @ rec_text r"

definition markerBlock :: "markerRecord list \<Rightarrow> byte list" where
  "markerBlock recs = uintLE 4 (length recs) @ concat (map recordBytes recs)"

text \<open>
  The positions of the blank bytes in a buffer: \<open>reservedFrom buffer k index\<close> for \<open>k\<close>
  records that start at \<open>index\<close>, each record starting where the text of the one before
  ends; \<open>reservedPositions\<close> for the block with its count.
\<close>

fun reservedFrom :: "buffer \<Rightarrow> nat \<Rightarrow> nat \<Rightarrow> nat set" where
  "reservedFrom buffer 0 index = {}"
| "reservedFrom buffer (Suc k) index =
     {index + 2, index + 3, index + 6, index + 7} \<union>
     (if index + 14 \<le> length buffer
      then reservedFrom buffer k
             (index + 14 + littleEndian (take 2 (drop (index + 12) buffer)))
      else {})"

definition reservedPositions :: "buffer \<Rightarrow> nat set" where
  "reservedPositions buffer =
     (case readUIntLE buffer 0 4 of
        Inl e \<Rightarrow> {}
      | Inr markerCount \<Rightarrow> reservedFrom buffer markerCount 4)"

text \<open>The marker that a record of the layout stands for, on a given floor.\<close>

definition markerOf :: "(nat \<Rightarrow> jsvalue) \<Rightarrow> int \<Rightarrow> markerRecord \<Rightarrow> marker" where
  "markerOf byID floor r =
     \<lparr> m_description = windows1252_decode (rec_text r),
       m_icon = byID (rec_imageID r),
       m_x = unat (rec_xTile r) * 256 + unat (rec_xOffset r),
       m_y = unat (rec_yTile r) * 256 + unat (rec_yOffset r),
       m_z = floor \<rparr>"

text \<open>
  The records of a block with the text of the last one cut to its first \<open>k\<close> bytes.
\<close>

definition cutLastText :: "nat \<Rightarrow> markerRecord list \<Rightarrow> markerRecord list" where
  "cutLastText k recs =
     (if recs = [] then []
      else butlast recs @ [(last recs) \<lparr> rec_text := take k (rec_text (last recs)) \<rparr>])"


text \<open>The canvas pixel of a palette colour: the colour, opaque.\<close>

definition opaque :: "color \<Rightarrow> rgba" where
  "opaque c = (case c of (r, g, b) \<Rightarrow> (r, g, b, 0xFF))"

text \<open>
  A position of a layer is known to a palette when the buffer has a byte there and the
  palette has an entry for the byte.
\<close>

definition knownAt :: "(nat \<rightharpoonup> imageData) \<Rightarrow> buffer \<Rightarrow> int \<Rightarrow> bool" where
  "knownAt palette buffer i = (paletteAt palette (byteAt buffer i) \<noteq> None)"

text \<open>The colour that a table gives to the byte at a position of a layer.\<close>

definition colorAt :: "(nat \<rightharpoonup> color) \<Rightarrow> buffer \<Rightarrow> int \<Rightarrow> color" where
  "colorAt table buffer i = the (table (unat (buffer ! nat i)))"

text \<open>The colours of the pathfinding palette, as a table.\<close>

definition pathColors :: "nat \<rightharpoonup> color" where
  "pathColors b =
     (if b = 0xFA then Some (250, 250, 250)
      else if b = 0xFF then Some (255, 255, 0)
      else if b \<le> 255 then Some (b, b, b)
      else None)"

text \<open>
  Two states of the module agree on everything but the markers.
\<close>

definition sameRasters :: "globals \<Rightarrow> globals \<Rightarrow> bool" where
  "sameRasters g g' =
     (bounds g = bounds g' \<and> mapContext g = mapContext g' \<and> pathContext g = pathContext g'
      \<and> console g = console g')"

section \<open>Example inputs\<close>

text \<open>A table of icons for the examples.\<close>

definition exampleIcons :: "nat \<Rightarrow> jsvalue" where
  "exampleIcons n =
     (if n = 0 then JString (ascii ''checkmark'')
      else if n = 3 then JString (ascii ''star'')
      else JUndefined)"

text \<open>
  A marker block of three records, at (10, 20) with the text \<open>A\<close>, at (5, 5) and at
  (10, 10).
\<close>

definition orderingBlock :: buffer where
  "orderingBlock =
     [3, 0, 0, 0,
      10, 0, 0, 0, 20, 0, 0, 0, 3, 0, 0, 0, 1, 0, 0x41,
      5, 0, 0, 0, 5, 0, 0, 0, 0, 0, 0, 0, 0, 0,
      10, 0, 0, 0, 10, 0, 0, 0, 3, 0, 0, 0, 0, 0]"

text \<open>The same block with other values in the blank bytes.\<close>

definition noisyBlock :: buffer where
  "noisyBlock =
     [3, 0, 0, 0,
      10, 0, 0xFF, 1, 20, 0, 2, 0x80, 3, 0, 0, 0, 1, 0, 0x41,
      5, 0, 7, 7, 5, 0, 9, 0, 0, 0, 0, 0, 0, 0,
      10, 0, 0, 3, 10, 0, 4, 5, 3, 0, 0, 0, 0, 0]"

text \<open>
  A tile with both layers black and unexplored and with no marker block at all, as
  the file \<open>12712113.map\<close> that the source mentions, and the state of a run whose bounds
  are this one tile.
\<close>

definition bareFile :: mapFile where
  "bareFile =
     \<lparr> fileName = ''Automap/12712113.map'', tileID = ''12712113'',
       tileCoordinates = \<lparr> cx = 127, cy = 121, cz = 13 \<rparr>,
       contents = replicate 0x10000 0 @ replicate 0x10000 0xFA \<rparr>"

definition oneTileGlobals :: globals where
  "oneTileGlobals =
     \<lparr> bounds = \<lparr> xMin = 127, yMin = 121, width = 256, height = 256 \<rparr>,
       mapContext = newCanvas 256 256, pathContext = newCanvas 256 256,
       markers = Map.empty, console = [] \<rparr>"

text \<open>
  Three records in the layout, the first and the last the same marker up to the case
  of the text (\<open>Ab\<close> and \<open>aB\<close>), and the markers they stand for on floor 7.
\<close>

definition duplicateRecords :: "markerRecord list" where
  "duplicateRecords =
     [\<lparr> rec_xOffset = 5, rec_xTile = 1, rec_xBlank1 = 0, rec_xBlank2 = 0,
         rec_yOffset = 6, rec_yTile = 2, rec_yBlank1 = 0, rec_yBlank2 = 0,
         rec_imageID = 3, rec_text = [0x41, 0x62] \<rparr>,
      \<lparr> rec_xOffset = 9, rec_xTile = 0, rec_xBlank1 = 0, rec_xBlank2 = 0,
         rec_yOffset = 9, rec_yTile = 0, rec_yBlank1 = 0, rec_yBlank2 = 0,
         rec_imageID = 0, rec_text = [] \<rparr>,
      \<lparr> rec_xOffset = 5, rec_xTile = 1, rec_xBlank1 = 0, rec_xBlank2 = 0,
         rec_yOffset = 6, rec_yTile = 2, rec_yBlank1 = 0, rec_yBlank2 = 0,
         rec_imageID = 3, rec_text = [0x61, 0x42] \<rparr>]"

definition markerAb :: marker where
  "markerAb = \<lparr> m_description = [0x41, 0x62], m_icon = JString (ascii ''star''),
                 m_x = 261, m_y = 518, m_z = 7 \<rparr>"

definition markerPlain :: marker where
  "markerPlain = \<lparr> m_description = [], m_icon = JString (ascii ''checkmark''),
                    m_x = 9, m_y = 9, m_z = 7 \<rparr>"

definition markerAB' :: marker where
  "markerAB' = \<lparr> m_description = [0x61, 0x42], m_icon = JString (ascii ''star''),
                  m_x = 261, m_y = 518, m_z = 7 \<rparr>"

text \<open>
  Tiles with the same two layers as \<open>bareFile\<close>: one with the marker block of the three
  records above, cut after 30 bytes (inside the fixed part of the second record), and
  one with the whole block \<open>orderingBlock\<close>.
\<close>

definition cutFile :: mapFile where
  "cutFile =
     \<lparr> fileName = ''Automap/12712113.map'', tileID = ''12712113'',
       tileCoordinates = \<lparr> cx = 127, cy = 121, cz = 13 \<rparr>,
       contents = replicate 0x10000 0 @ replicate 0x10000 0xFA
                    @ take 30 (markerBlock duplicateRecords) \<rparr>"

definition markedFile :: mapFile where
  "markedFile =
     \<lparr> fileName = ''Automap/12712113.map'', tileID = ''12712113'',
       tileCoordinates = \<lparr> cx = 127, cy = 121, cz = 13 \<rparr>,
       contents = replicate 0x10000 0 @ replicate 0x10000 0xFA @ orderingBlock \<rparr>"

text \<open>
  A block of one record that declares five bytes of text and ends after two of them.
\<close>

definition cutTextBlock :: buffer where
  "cutTextBlock =
     [1, 0, 0, 0,
      10, 0, 0, 0, 20, 0, 0, 0, 3, 0, 0, 0, 5, 0, 0x41, 0x42]"

text \<open>
  A tile whose visual layer is black but for the red byte 0xBA at index 1, and tiles
  whose visual layer has the byte 0x01, which the visual palette does not have, at
  index 0 and at index 2.
\<close>

definition stripeFile :: mapFile where
  "stripeFile =
     \<lparr> fileName = ''Automap/12712113.map'', tileID = ''12712113'',
       tileCoordinates = \<lparr> cx = 127, cy = 121, cz = 13 \<rparr>,
       contents = [0, 0xBA] @ replicate 0xFFFE 0 @ replicate 0x10000 0xFA @ [0, 0, 0, 0] \<rparr>"

definition unknownFile :: mapFile where
  "unknownFile =
     \<lparr> fileName = ''Automap/12712113.map'', tileID = ''12712113'',
       tileCoordinates = \<lparr> cx = 127, cy = 121, cz = 13 \<rparr>,
       contents = [0x01] @ replicate 0xFFFF 0 @ replicate 0x10000 0xFA @ [0, 0, 0, 0] \<rparr>"

definition laterUnknownFile :: mapFile where
  "laterUnknownFile =
     \<lparr> fileName = ''Automap/12712113.map'', tileID = ''12712113'',
       tileCoordinates = \<lparr> cx = 127, cy = 121, cz = 13 \<rparr>,
       contents = [0, 0xBA, 0x01, 0x02] @ replicate 0xFFFC 0 @ replicate 0x10000 0xFA
                    @ [0, 0, 0, 0] \<rparr>"

section \<open>The palettes\<close>

lemma fold_upd_lookup:
  "fold (\<lambda>k m. m(k \<mapsto> f k)) ks m0 b = (if b \<in> set ks then Some (f b) else m0 b)"
  by (induction ks arbitrary: m0) auto

lemma pathPixelPalette_lookup:
  "pathPixelPalette b =
     (if b = 0xFA then Some (pixelImageData (250, 250, 250))
      else if b = 0xFF then Some (pixelImageData (255, 255, 0))
      else if b \<le> 255 then Some (pixelImageData (b, b, b))
      else None)"
  by (simp add: pathPixelPalette_def fold_upd_lookup range_def Let_def unexploredPathByte_def
        unexploredPath_def nonWalkablePathByte_def nonWalkablePath_def byByte_def
        byByte_entries_def)

lemma mapPixelPalette_lookup: "mapPixelPalette b = map_option pixelImageData (byByte b)"
  by (simp add: mapPixelPalette_def fold_upd_lookup Let_def byByte_def byByte_entries_def)

text \<open>
  Claim C6. The pathfinding palette has an entry for every byte from 0 to 255, and the
  entry is the image of one pixel (width 1, height 1) whose red, green, blue and alpha
  are: (250, 250, 250, 255) for the byte 0xFA; (255, 255, 0, 255) for the byte 0xFF,
  which is the colour of non-walkable paths, the entry 0xD2 (stairs and ladders) of the
  visual table; and (b, b, b, 255), a grey, for every other byte \<open>b\<close>.
\<close>

theorem pathPixelPalette_total:
  assumes "b \<le> 255"
  shows "pathPixelPalette b =
           Some \<lparr> iwidth = 1, iheight = 1,
                  idata = (\<lambda>col row.
                    if col < 1 \<and> row < 1
                    then (if b = 0xFA then (250, 250, 250, 255)
                          else if b = 0xFF then (255, 255, 0, 255)
                          else (b, b, b, 255))
                    else (0, 0, 0, 0)) \<rparr>
         \<and> pathPixelPalette b =
             Some (pixelImageData
                     (if b = 0xFA then (250, 250, 250)
                      else if b = 0xFF then nonWalkablePath
                      else (b, b, b)))
         \<and> nonWalkablePath = (255, 255, 0)
         \<and> byByte 0xD2 = Some nonWalkablePath"
proof -
  have nw: "nonWalkablePath = (255, 255, 0)" and d2: "byByte 0xD2 = Some (255, 255, 0)"
    by (simp_all add: nonWalkablePath_def byByte_def byByte_entries_def)
  have pixel: "pathPixelPalette b =
           Some \<lparr> iwidth = 1, iheight = 1,
                  idata = (\<lambda>col row.
                    if col < 1 \<and> row < 1
                    then (if b = 0xFA then (250, 250, 250, 255)
                          else if b = 0xFF then (255, 255, 0, 255)
                          else (b, b, b, 255))
                    else (0, 0, 0, 0)) \<rparr>"
    using assms by (simp add: pathPixelPalette_lookup pixelImageData_def)
  from assms have "pathPixelPalette b =
             Some (pixelImageData
                     (if b = 0xFA then (250, 250, 250)
                      else if b = 0xFF then nonWalkablePath
                      else (b, b, b)))"
    by (simp add: pathPixelPalette_lookup nw)
  with pixel nw d2 show ?thesis by simp
qed

theorem pathPixelPalette_total_witness:
  "map_option (\<lambda>entry. (iwidth entry, iheight entry, idata entry 0 0)) (pathPixelPalette 0xFA)
     = Some (1, 1, (250, 250, 250, 255))
   \<and> map_option (\<lambda>entry. (iwidth entry, iheight entry, idata entry 0 0)) (pathPixelPalette 0xFF)
     = Some (1, 1, (255, 255, 0, 255))
   \<and> map_option (\<lambda>entry. (iwidth entry, iheight entry, idata entry 0 0)) (pathPixelPalette 0x64)
     = Some (1, 1, (100, 100, 100, 255))"
  using pathPixelPalette_total [of "0xFA"] pathPixelPalette_total [of "0xFF"]
    pathPixelPalette_total [of "0x64"]
  by simp
section \<open>Decoding a marker block\<close>

lemma readMarker_eq:
  "readMarker byID buffer floor index =
     (if index + 14 \<le> length buffer
      then Inr (\<lparr> m_description = windows1252_decode
                    (slice_buf buffer (index + 14)
                       (index + 14 + littleEndian (take 2 (drop (index + 12) buffer)))),
                  m_icon = byID (littleEndian (take 4 (drop (index + 8) buffer))),
                  m_x = unat (buffer ! (index + 1)) * 256 + unat (buffer ! index),
                  m_y = unat (buffer ! (index + 5)) * 256 + unat (buffer ! (index + 4)),
                  m_z = floor \<rparr>,
                index + 14 + littleEndian (take 2 (drop (index + 12) buffer)))
      else Inl RangeError)"
  by (simp add: readMarker_def readUInt8_def readUIntLE_def Let_def)

lemma whileMarkers_done:
  "\<not> length acc < markerCount \<Longrightarrow>
     whileMarkers byID buffer floor markerCount index acc = Inr acc"
  by (simp add: whileMarkers.simps)

lemma whileMarkers_error:
  "length acc < markerCount \<Longrightarrow> readMarker byID buffer floor index = Inl e \<Longrightarrow>
     whileMarkers byID buffer floor markerCount index acc = Inl e"
  by (subst whileMarkers.simps) simp

lemma whileMarkers_step:
  "length acc < markerCount \<Longrightarrow>
   readMarker byID buffer floor index = Inr (marker, index') \<Longrightarrow>
     whileMarkers byID buffer floor markerCount index acc =
       whileMarkers byID buffer floor markerCount index' (acc @ [marker])"
  by (subst whileMarkers.simps) simp

lemmas marker_eval =
  parseMarkerData_def readUIntLE_def whileMarkers_step whileMarkers_done whileMarkers_error
  readMarker_eq slice_buf_def windows1252_decode_def windows1252_char_def windows1252_index_def
  exampleIcons_def sortMarkers_def sortKey_def
  serialized_def stringify_def stringifyMember_def stringifyIcon_def quoteJSONString_def
  quoteCodeUnit_def hexDigit_def toLowerCase_def lowerCodeUnit_def ascii_def numberToString_def
  decimal.simps

subsection \<open>Order of the result\<close>

lemma set_filterUnique: "set (filterUnique seen ms) \<subseteq> set ms"
  by (induction ms arbitrary: seen) (auto simp: Let_def)

lemma sorted_filterUnique:
  "sorted (map f ms) \<Longrightarrow> sorted (map f (filterUnique seen ms))"
proof (induction ms arbitrary: seen)
  case Nil
  then show ?case by simp
next
  case (Cons m ms)
  have rest: "sorted (map f (filterUnique (insert (serialized m) seen) ms))"
    using Cons by simp
  have "\<forall>a \<in> set (filterUnique (insert (serialized m) seen) ms). f m \<le> f a"
    using Cons.prems set_filterUnique [of "insert (serialized m) seen" ms] by auto
  with rest show ?case by (simp add: Let_def)
qed

lemma orderingBlock_decodes:
  "parseMarkerData exampleIcons orderingBlock floor =
     Inr [\<lparr> m_description = [], m_icon = JString (ascii ''checkmark''),
            m_x = 5, m_y = 5, m_z = floor \<rparr>,
          \<lparr> m_description = [], m_icon = JString (ascii ''star''),
            m_x = 10, m_y = 10, m_z = floor \<rparr>,
          \<lparr> m_description = [0x41], m_icon = JString (ascii ''star''),
            m_x = 10, m_y = 20, m_z = floor \<rparr>]"
  by (simp add: orderingBlock_def marker_eval)


text \<open>
  Claim C4. The list that \<open>parseMarkerData\<close> returns is sorted ascending by the key
  \<open>x * 100000 + y\<close>. (The witness decodes a block with markers at (10, 20), (5, 5) and
  (10, 10), in this order, to the order (5, 5), (10, 10), (10, 20).)
\<close>

theorem parseMarkerData_sorted:
  assumes "parseMarkerData byID buffer floor = Inr ms"
  shows "sorted (map (\<lambda>m. m_x m * 100000 + m_y m) ms)"
proof -
  have key: "(\<lambda>m. m_x m * 100000 + m_y m) = sortKey"
    by (simp add: sortKey_def fun_eq_iff)
  from assms show ?thesis
    unfolding key
    by (auto simp: parseMarkerData_def sortMarkers_def sorted_filterUnique
             split: sum.splits if_splits)
qed

theorem parseMarkerData_sorted_witness:
  "parseMarkerData exampleIcons orderingBlock 7 =
     Inr [\<lparr> m_description = [], m_icon = JString (ascii ''checkmark''),
            m_x = 5, m_y = 5, m_z = 7 \<rparr>,
          \<lparr> m_description = [], m_icon = JString (ascii ''star''),
            m_x = 10, m_y = 10, m_z = 7 \<rparr>,
          \<lparr> m_description = [0x41], m_icon = JString (ascii ''star''),
            m_x = 10, m_y = 20, m_z = 7 \<rparr>]
   \<and> sorted (map (\<lambda>m. m_x m * 100000 + m_y m)
        [\<lparr> m_description = [], m_icon = JString (ascii ''checkmark''),
            m_x = 5, m_y = 5, m_z = 7 \<rparr>,
          \<lparr> m_description = [], m_icon = JString (ascii ''star''),
            m_x = 10, m_y = 10, m_z = 7 \<rparr>,
          \<lparr> m_description = [0x41], m_icon = JString (ascii ''star''),
            m_x = 10, m_y = 20, m_z = 7 \<rparr>])"
  using orderingBlock_decodes [of 7]
    parseMarkerData_sorted [OF orderingBlock_decodes [of 7]]
  by blast

subsection \<open>Blocks that follow the layout\<close>

lemma littleEndian_uintLE: "littleEndian (uintLE n v) = v mod 256 ^ n"
proof (induction n arbitrary: v)
  case 0
  then show ?case by simp
next
  case (Suc n)
  have "unat (word_of_nat (v mod 256) :: byte) = v mod 256"
    by (simp add: unat_of_nat)
  then have "littleEndian (uintLE (Suc n) v) = v mod 256 + 256 * ((v div 256) mod 256 ^ n)"
    using Suc by simp
  also have "\<dots> = v mod 256 ^ Suc n"
    by (simp add: mod_mult2_eq)
  finally show ?case .
qed

lemma length_uintLE [simp]: "length (uintLE n v) = n"
  by (induction n arbitrary: v) auto

lemma length_recordBytes: "length (recordBytes r) = 14 + length (rec_text r)"
  by (simp add: recordBytes_def)

lemma littleEndian_uintLE_4: "v < 4294967296 \<Longrightarrow> littleEndian (uintLE 4 v) = v"
  using littleEndian_uintLE [of 4 v] by simp

lemma littleEndian_uintLE_2: "v < 65536 \<Longrightarrow> littleEndian (uintLE 2 v) = v"
  using littleEndian_uintLE [of 2 v] by simp

lemma readMarker_record:
  assumes "rec_imageID r < 2 ^ 32" and "length (rec_text r) < 2 ^ 16"
  shows "readMarker byID (pre @ recordBytes r @ post) floor (length pre) =
           Inr (\<lparr> m_description = windows1252_decode (rec_text r),
                   m_icon = byID (rec_imageID r),
                   m_x = unat (rec_xTile r) * 256 + unat (rec_xOffset r),
                   m_y = unat (rec_yTile r) * 256 + unat (rec_yOffset r),
                   m_z = floor \<rparr>,
                length (pre @ recordBytes r))"
  using assms
  by (simp add: readMarker_eq recordBytes_def nth_append slice_buf_def
        littleEndian_uintLE_4 littleEndian_uintLE_2 del: uintLE.simps)


lemma whileMarkers_records:
  assumes "\<forall>r \<in> set rs. rec_imageID r < 2 ^ 32 \<and> length (rec_text r) < 2 ^ 16"
    and "length acc + length rs = markerCount"
  shows "whileMarkers byID (pre @ concat (map recordBytes rs) @ post) floor markerCount
           (length pre) acc = Inr (acc @ map (markerOf byID floor) rs)"
  using assms
proof (induction rs arbitrary: pre acc)
  case Nil
  then show ?case by (simp add: whileMarkers_done)
next
  case (Cons r rs)
  have rd: "readMarker byID (pre @ recordBytes r @ (concat (map recordBytes rs) @ post)) floor
              (length pre) = Inr (markerOf byID floor r, length (pre @ recordBytes r))"
    using Cons.prems(1) readMarker_record [of r byID pre _ floor]
    by (simp add: markerOf_def)
  have "whileMarkers byID ((pre @ recordBytes r) @ concat (map recordBytes rs) @ post) floor
          markerCount (length (pre @ recordBytes r)) (acc @ [markerOf byID floor r])
        = Inr ((acc @ [markerOf byID floor r]) @ map (markerOf byID floor) rs)"
    using Cons.prems by (intro Cons.IH) auto
  moreover have "length acc < markerCount"
    using Cons.prems(2) by simp
  ultimately show ?case
    using rd by (simp add: whileMarkers_step)
qed

lemma readUIntLE_markerBlock:
  "n < 2 ^ 32 \<Longrightarrow> readUIntLE (uintLE 4 n @ rest) 0 4 = Inr n"
  by (simp add: readUIntLE_def littleEndian_uintLE_4 del: uintLE.simps)

text \<open>
  Claim C3. For a block that is laid out as the format says, with as many records as
  its count (and any bytes after the last record), the loop of \<open>parseMarkerData\<close> reads
  exactly the records of the count, one marker for each in their order, with
  \<open>x = xTile * 256 + xOffset\<close>, \<open>y = yTile * 256 + yOffset\<close> and \<open>z\<close> the floor of the
  caller; the result is this list, sorted and without duplicates.
\<close>

theorem parseMarkerData_markerBlock:
  assumes "length recs < 2 ^ 32"
    and "\<forall>r \<in> set recs. rec_imageID r < 2 ^ 32 \<and> length (rec_text r) < 2 ^ 16"
  shows "readUIntLE (markerBlock recs @ rest) 0 4 = Inr (length recs)
         \<and> whileMarkers byID (markerBlock recs @ rest) floor (length recs) 4 [] =
             Inr (map (\<lambda>r. \<lparr> m_description = windows1252_decode (rec_text r),
                               m_icon = byID (rec_imageID r),
                               m_x = unat (rec_xTile r) * 256 + unat (rec_xOffset r),
                               m_y = unat (rec_yTile r) * 256 + unat (rec_yOffset r),
                               m_z = floor \<rparr>) recs)
         \<and> parseMarkerData byID (markerBlock recs @ rest) floor =
             Inr (filterUnique {} (sortMarkers
               (map (\<lambda>r. \<lparr> m_description = windows1252_decode (rec_text r),
                               m_icon = byID (rec_imageID r),
                               m_x = unat (rec_xTile r) * 256 + unat (rec_xOffset r),
                               m_y = unat (rec_yTile r) * 256 + unat (rec_yOffset r),
                               m_z = floor \<rparr>) recs)))"
proof -
  have mo: "(\<lambda>r. \<lparr> m_description = windows1252_decode (rec_text r),
                               m_icon = byID (rec_imageID r),
                               m_x = unat (rec_xTile r) * 256 + unat (rec_xOffset r),
                               m_y = unat (rec_yTile r) * 256 + unat (rec_yOffset r),
                               m_z = floor \<rparr>) = markerOf byID floor"
    by (simp add: markerOf_def fun_eq_iff)
  have count: "readUIntLE (markerBlock recs @ rest) 0 4 = Inr (length recs)"
    using assms(1) readUIntLE_markerBlock [of "length recs"]
    by (simp add: markerBlock_def del: uintLE.simps)
  have loop: "whileMarkers byID (markerBlock recs @ rest) floor (length recs) 4 [] =
                Inr (map (markerOf byID floor) recs)"
    using whileMarkers_records [of recs "[]" "length recs" byID "uintLE 4 (length recs)" rest floor]
      assms(2)
    by (simp add: markerBlock_def del: uintLE.simps)
  have "parseMarkerData byID (markerBlock recs @ rest) floor =
          Inr (filterUnique {} (sortMarkers (map (markerOf byID floor) recs)))"
  proof (cases "recs = []")
    case True
    then show ?thesis using count by (simp add: parseMarkerData_def sortMarkers_def)
  next
    case False
    then show ?thesis using count loop by (simp add: parseMarkerData_def)
  qed
  with count loop show ?thesis unfolding mo by simp
qed


subsection \<open>The blank bytes\<close>

lemma reservedFrom_lower: "p \<in> reservedFrom buffer k index \<Longrightarrow> index + 2 \<le> p"
proof (induction k arbitrary: index)
  case 0
  then show ?case by simp
next
  case (Suc k)
  then show ?case by (fastforce split: if_splits)
qed

lemma take_drop_agree:
  assumes "length b1 = length b2"
    and "\<And>j. i \<le> j \<Longrightarrow> j < i + n \<Longrightarrow> j < length b1 \<Longrightarrow> b1 ! j = b2 ! j"
  shows "take n (drop i b1) = take n (drop i b2)"
  using assms by (intro nth_equalityI) auto

lemma readMarker_agree:
  assumes len: "length b1 = length b2"
    and agree: "\<And>j. index \<le> j \<Longrightarrow> j < length b1 \<Longrightarrow>
                  j \<notin> reservedFrom b1 (Suc k) index \<Longrightarrow> b1 ! j = b2 ! j"
  shows "readMarker byID b1 floor index = readMarker byID b2 floor index"
proof (cases "index + 14 \<le> length b1")
  case False
  then show ?thesis using len by (simp add: readMarker_eq)
next
  case True
  define nxt where "nxt = index + 14 + littleEndian (take 2 (drop (index + 12) b1))"
  have later: "\<And>p. p \<in> reservedFrom b1 k nxt \<Longrightarrow> nxt + 2 \<le> p"
    by (rule reservedFrom_lower)
  have fixed: "\<And>j. index \<le> j \<Longrightarrow> j < index + 14 \<Longrightarrow>
                 j \<notin> {index + 2, index + 3, index + 6, index + 7} \<Longrightarrow> b1 ! j = b2 ! j"
  proof -
    fix j assume j: "index \<le> j" "j < index + 14"
      "j \<notin> {index + 2, index + 3, index + 6, index + 7}"
    have "j \<notin> reservedFrom b1 k nxt"
      using later [of j] j(2) by (auto simp: nxt_def)
    then have "j \<notin> reservedFrom b1 (Suc k) index"
      using j(3) True by (simp add: nxt_def)
    then show "b1 ! j = b2 ! j" using agree j True by simp
  qed
  have id: "take 4 (drop (index + 8) b1) = take 4 (drop (index + 8) b2)"
    by (rule take_drop_agree [OF len]) (rule fixed, auto)
  have ln: "take 2 (drop (index + 12) b1) = take 2 (drop (index + 12) b2)"
    by (rule take_drop_agree [OF len]) (rule fixed, auto)
  have body: "take (nxt - (index + 14)) (drop (index + 14) b1)
              = take (nxt - (index + 14)) (drop (index + 14) b2)"
  proof (rule take_drop_agree [OF len])
    fix j assume j: "index + 14 \<le> j" "j < index + 14 + (nxt - (index + 14))" "j < length b1"
    have "j < nxt" using j(2) by (simp add: nxt_def)
    then have "j \<notin> reservedFrom b1 k nxt" using later [of j] by auto
    then have "j \<notin> reservedFrom b1 (Suc k) index"
      using j(1) True by (simp add: nxt_def)
    then show "b1 ! j = b2 ! j" using agree j by simp
  qed
  have bytes: "b1 ! index = b2 ! index" "b1 ! (index + 1) = b2 ! (index + 1)"
    "b1 ! (index + 4) = b2 ! (index + 4)" "b1 ! (index + 5) = b2 ! (index + 5)"
    by (rule fixed, simp, simp, simp)+
  show ?thesis
    using True len id ln body bytes
    by (simp add: readMarker_eq slice_buf_def nxt_def)
qed


lemma whileMarkers_agree:
  assumes "length b1 = length b2"
    and "k = markerCount - length acc"
    and "\<And>j. index \<le> j \<Longrightarrow> j < length b1 \<Longrightarrow>
           j \<notin> reservedFrom b1 k index \<Longrightarrow> b1 ! j = b2 ! j"
  shows "whileMarkers byID b1 floor markerCount index acc =
         whileMarkers byID b2 floor markerCount index acc"
  using assms
proof (induction k arbitrary: index acc)
  case 0
  then show ?case by (simp add: whileMarkers_done)
next
  case (Suc k)
  have more: "length acc < markerCount" using Suc.prems(2) by simp
  have rd: "readMarker byID b1 floor index = readMarker byID b2 floor index"
    using Suc.prems(1,3) by (rule readMarker_agree)
  show ?case
  proof (cases "readMarker byID b1 floor index")
    case (Inl e)
    then show ?thesis using rd more by (simp add: whileMarkers_error)
  next
    case (Inr res)
    obtain m index' where res: "res = (m, index')" by (cases res)
    have fits: "index + 14 \<le> length b1"
      and index': "index' = index + 14 + littleEndian (take 2 (drop (index + 12) b1))"
      using Inr res by (auto simp: readMarker_eq split: if_splits)
    have "whileMarkers byID b1 floor markerCount index' (acc @ [m]) =
          whileMarkers byID b2 floor markerCount index' (acc @ [m])"
    proof (rule Suc.IH [OF Suc.prems(1)])
      show "k = markerCount - length (acc @ [m])" using Suc.prems(2) by simp
    next
      fix j assume j: "index' \<le> j" "j < length b1" "j \<notin> reservedFrom b1 k index'"
      have "j \<notin> reservedFrom b1 (Suc k) index"
        using j(1,3) fits index' by auto
      then show "b1 ! j = b2 ! j" using Suc.prems(3) j(1,2) index' by simp
    qed
    then show ?thesis using Inr res rd more by (simp add: whileMarkers_step)
  qed
qed

text \<open>
  Claim C10. Two marker blocks of the same length that differ only at positions of
  blank bytes (the two after the x pair and the two after the y pair of a record)
  decode to the same result, whether a list or an error: the blank bytes are never
  read.
\<close>

theorem reserved_bytes_ignored:
  assumes len: "length b1 = length b2"
    and agree: "\<forall>i < length b1. i \<notin> reservedPositions b1 \<longrightarrow> b1 ! i = b2 ! i"
  shows "parseMarkerData byID b1 floor = parseMarkerData byID b2 floor"
proof (cases "4 \<le> length b1")
  case False
  then show ?thesis using len by (simp add: parseMarkerData_def readUIntLE_def)
next
  case True
  define markerCount where "markerCount = littleEndian (take 4 (drop 0 b1))"
  have res: "reservedPositions b1 = reservedFrom b1 markerCount 4"
    using True by (simp add: reservedPositions_def readUIntLE_def markerCount_def)
  have "take 4 (drop 0 b1) = take 4 (drop 0 b2)"
  proof (rule take_drop_agree [OF len])
    fix j :: nat assume j: "j < 0 + 4" "j < length b1"
    have "j \<notin> reservedFrom b1 markerCount 4"
      using reservedFrom_lower [of j b1 markerCount 4] j(1) by auto
    then show "b1 ! j = b2 ! j" using agree j(2) res by simp
  qed
  then have count: "readUIntLE b1 0 4 = Inr markerCount" "readUIntLE b2 0 4 = Inr markerCount"
    using True len by (simp_all add: readUIntLE_def markerCount_def)
  have "whileMarkers byID b1 floor markerCount 4 [] = whileMarkers byID b2 floor markerCount 4 []"
  proof (rule whileMarkers_agree [OF len])
    show "markerCount = markerCount - length ([] :: marker list)" by simp
  next
    fix j assume "4 \<le> j" "j < length b1" "j \<notin> reservedFrom b1 markerCount 4"
    then show "b1 ! j = b2 ! j" using agree res by simp
  qed
  then show ?thesis using count by (simp add: parseMarkerData_def)
qed

lemma all_less_list_all: "(\<forall>i<n. P i) = list_all P [0..<n]"
  by (auto simp: list_all_iff)

lemma reservedFrom_unfold:
  "0 < k \<Longrightarrow> reservedFrom buffer k index =
     {index + 2, index + 3, index + 6, index + 7} \<union>
     (if index + 14 \<le> length buffer
      then reservedFrom buffer (k - 1)
             (index + 14 + littleEndian (take 2 (drop (index + 12) buffer)))
      else {})"
  by (cases k) simp_all

lemma reservedPositions_orderingBlock: "reservedPositions orderingBlock = {35, 36, 39, 40, 21, 22, 25, 26, 6, 7, 10, 11}"
  by (simp add: reservedPositions_def readUIntLE_def orderingBlock_def reservedFrom_unfold)

theorem reserved_bytes_ignored_witness:
  "noisyBlock \<noteq> orderingBlock
   \<and> parseMarkerData exampleIcons orderingBlock 7 = parseMarkerData exampleIcons noisyBlock 7"
proof -
  have len: "length orderingBlock = length noisyBlock"
    by (simp add: orderingBlock_def noisyBlock_def)
  have agree: "\<forall>i < length orderingBlock.
                 i \<notin> reservedPositions orderingBlock \<longrightarrow> orderingBlock ! i = noisyBlock ! i"
    unfolding reservedPositions_orderingBlock all_less_list_all
    by (simp add: orderingBlock_def noisyBlock_def)
  have "noisyBlock \<noteq> orderingBlock"
    by (simp add: orderingBlock_def noisyBlock_def)
  with reserved_bytes_ignored [OF len agree] show ?thesis by simp
qed
subsection \<open>Duplicates\<close>









subsection \<open>Blocks that end too early\<close>

lemma readMarker_short:
  "length buffer < index + 14 \<Longrightarrow> readMarker byID buffer floor index = Inl RangeError"
  by (simp add: readMarker_eq)

lemma take_drop_take: "i + k \<le> n \<Longrightarrow> take k (drop i (take n xs)) = take k (drop i xs)"
  by (simp add: drop_take)

lemma readMarker_truncated_header_inside:
  assumes "length (rec_text r) < 2 ^ 16" and "length pre + 14 \<le> n"
  shows "\<exists>m. readMarker byID (take n (pre @ recordBytes r @ post)) floor (length pre) =
               Inr (m, length (pre @ recordBytes r))"
proof -
  define b where "b = take n (pre @ recordBytes r @ post)"
  have fits: "length pre + 14 \<le> length b"
    using assms(2) by (simp add: b_def length_recordBytes)
  have "take 2 (drop (length pre + 12) b)
          = take 2 (drop (length pre + 12) (pre @ recordBytes r @ post))"
    unfolding b_def using assms(2) by (intro take_drop_take) simp
  also have "\<dots> = uintLE 2 (length (rec_text r))"
    by (simp add: recordBytes_def del: uintLE.simps)
  finally have "littleEndian (take 2 (drop (length pre + 12) b))
                  = littleEndian (uintLE 2 (length (rec_text r)))"
    by (rule arg_cong)
  then have len: "littleEndian (take 2 (drop (length pre + 12) b)) = length (rec_text r)"
    using assms(1) littleEndian_uintLE_2 [of "length (rec_text r)"] by simp
  have "length (pre @ recordBytes r) = length pre + 14 + length (rec_text r)"
    by (simp add: length_recordBytes)
  with len have "length pre + 14 + littleEndian (take 2 (drop (length pre + 12) b))
             = length (pre @ recordBytes r)"
    by linarith
  then have "\<exists>m. readMarker byID b floor (length pre) = Inr (m, length (pre @ recordBytes r))"
    unfolding readMarker_eq using fits by (simp only: if_True) blast
  then show ?thesis by (simp only: b_def)
qed

lemma whileMarkers_truncated:
  assumes "\<forall>r \<in> set rs. length (rec_text r) < 2 ^ 16"
    and "rs \<noteq> []"
    and "length acc + length rs = markerCount"
    and "n < length pre + length (concat (map recordBytes (butlast rs))) + 14"
  shows "whileMarkers byID (take n (pre @ concat (map recordBytes rs))) floor markerCount
           (length pre) acc = Inl RangeError"
  using assms
proof (induction rs arbitrary: pre acc)
  case Nil
  then show ?case by simp
next
  case (Cons r rs)
  have more: "length acc < markerCount" using Cons.prems(3) by simp
  show ?case
  proof (cases "n < length pre + 14")
    case True
    then have "length (take n (pre @ concat (map recordBytes (r # rs)))) < length pre + 14"
      by simp
    then show ?thesis
      using more by (simp add: whileMarkers_error readMarker_short)
  next
    case False
    then have inside: "length pre + 14 \<le> n" by simp
    then have rest: "rs \<noteq> []" using Cons.prems(4) by auto
    obtain m where rd: "readMarker byID (take n (pre @ recordBytes r @ concat (map recordBytes rs)))
                         floor (length pre) = Inr (m, length (pre @ recordBytes r))"
      using readMarker_truncated_header_inside [OF _ inside, of r byID "concat (map recordBytes rs)" floor]
        Cons.prems(1) by auto
    have "whileMarkers byID (take n ((pre @ recordBytes r) @ concat (map recordBytes rs))) floor
            markerCount (length (pre @ recordBytes r)) (acc @ [m]) = Inl RangeError"
    proof (rule Cons.IH [OF _ rest])
      show "\<forall>r \<in> set rs. length (rec_text r) < 2 ^ 16" using Cons.prems(1) by simp
      show "length (acc @ [m]) + length rs = markerCount" using Cons.prems(3) by simp
      show "n < length (pre @ recordBytes r) + length (concat (map recordBytes (butlast rs))) + 14"
        using Cons.prems(4) rest by simp
    qed
    then show ?thesis
      using rd more by (simp add: whileMarkers_step)
  qed
qed

lemma length_markerBlock:
  "length (markerBlock recs) = 4 + length (concat (map recordBytes recs))"
  by (simp add: markerBlock_def)

lemma parseMarkerData_truncated:
  assumes "length recs < 2 ^ 32"
    and "\<forall>r \<in> set recs. length (rec_text r) < 2 ^ 16"
    and "n < length (markerBlock recs)
               - (if recs = [] then 0 else length (rec_text (last recs)))"
  shows "parseMarkerData byID (take n (markerBlock recs)) floor = Inl RangeError"
proof (cases "n < 4")
  case True
  then show ?thesis by (simp add: parseMarkerData_def readUIntLE_def)
next
  case False
  then have n4: "4 \<le> n" by simp
  have nonempty: "recs \<noteq> []"
    using assms(3) n4 by (auto simp: length_markerBlock)
  have count: "readUIntLE (take n (markerBlock recs)) 0 4 = Inr (length recs)"
    using n4 assms(1)
    by (simp add: readUIntLE_def markerBlock_def littleEndian_uintLE_4 min_def del: uintLE.simps)
  have split: "recs = butlast recs @ [last recs]"
    using nonempty by simp
  have "length (concat (map recordBytes recs)) =
          length (concat (map recordBytes (butlast recs))) + 14 + length (rec_text (last recs))"
    by (subst split) (simp add: length_recordBytes)
  then have bound: "n < length (uintLE 4 (length recs))
                        + length (concat (map recordBytes (butlast recs))) + 14"
    using assms(3) nonempty by (simp add: length_markerBlock)
  have "whileMarkers byID (take n (uintLE 4 (length recs) @ concat (map recordBytes recs))) floor
          (length recs) (length (uintLE 4 (length recs))) [] = Inl RangeError"
    by (rule whileMarkers_truncated [OF assms(2) nonempty _ bound]) simp
  then have "whileMarkers byID (take n (markerBlock recs)) floor (length recs) 4 [] = Inl RangeError"
    by (simp add: markerBlock_def del: uintLE.simps)
  then show ?thesis
    using count nonempty by (simp add: parseMarkerData_def)
qed

lemma whileMarkers_headers_inside:
  assumes "\<forall>r \<in> set rs. length (rec_text r) < 2 ^ 16"
    and "length acc + length rs = markerCount"
    and "rs \<noteq> [] \<longrightarrow> length pre + length (concat (map recordBytes (butlast rs))) + 14 \<le> n"
  shows "\<exists>ms. whileMarkers byID (take n (pre @ concat (map recordBytes rs))) floor markerCount
                (length pre) acc = Inr ms"
  using assms
proof (induction rs arbitrary: pre acc)
  case Nil
  then show ?case by (simp add: whileMarkers_done)
next
  case (Cons r rs)
  have more: "length acc < markerCount" using Cons.prems(2) by simp
  have inside: "length pre + 14 \<le> n" using Cons.prems(3) by simp
  obtain m where rd: "readMarker byID (take n (pre @ recordBytes r @ concat (map recordBytes rs)))
                         floor (length pre) = Inr (m, length (pre @ recordBytes r))"
    using readMarker_truncated_header_inside [OF _ inside, of r byID "concat (map recordBytes rs)" floor]
      Cons.prems(1) by auto
  have "\<exists>ms. whileMarkers byID (take n ((pre @ recordBytes r) @ concat (map recordBytes rs))) floor
            markerCount (length (pre @ recordBytes r)) (acc @ [m]) = Inr ms"
  proof (rule Cons.IH)
    show "\<forall>r \<in> set rs. length (rec_text r) < 2 ^ 16" using Cons.prems(1) by simp
    show "length (acc @ [m]) + length rs = markerCount" using Cons.prems(2) by simp
    show "rs \<noteq> [] \<longrightarrow>
            length (pre @ recordBytes r) + length (concat (map recordBytes (butlast rs))) + 14 \<le> n"
      using Cons.prems(3) by auto
  qed
  then show ?case
    using rd more by (simp add: whileMarkers_step)
qed

lemma parseMarkerData_cut_late:
  assumes "length recs < 2 ^ 32"
    and "\<forall>r \<in> set recs. length (rec_text r) < 2 ^ 16"
    and "length (markerBlock recs)
           - (if recs = [] then 0 else length (rec_text (last recs))) \<le> n"
  shows "\<exists>ms. parseMarkerData byID (take n (markerBlock recs)) floor = Inr ms"
proof -
  have bound: "recs \<noteq> [] \<longrightarrow> length (uintLE 4 (length recs))
                  + length (concat (map recordBytes (butlast recs))) + 14 \<le> n"
  proof
    assume nonempty: "recs \<noteq> []"
    then have split: "recs = butlast recs @ [last recs]" by simp
    have "length (concat (map recordBytes recs)) =
            length (concat (map recordBytes (butlast recs))) + 14 + length (rec_text (last recs))"
      by (subst split) (simp add: length_recordBytes)
    then show "length (uintLE 4 (length recs))
                  + length (concat (map recordBytes (butlast recs))) + 14 \<le> n"
      using assms(3) nonempty by (simp add: length_markerBlock)
  qed
  have n4: "4 \<le> n"
  proof (cases "recs = []")
    case True
    then show ?thesis using assms(3) by (simp add: length_markerBlock)
  next
    case False
    then show ?thesis using bound by simp
  qed
  have count: "readUIntLE (take n (markerBlock recs)) 0 4 = Inr (length recs)"
    using n4 assms(1)
    by (simp add: readUIntLE_def markerBlock_def littleEndian_uintLE_4 min_def del: uintLE.simps)
  have "\<exists>ms. whileMarkers byID (take n (uintLE 4 (length recs) @ concat (map recordBytes recs)))
               floor (length recs) (length (uintLE 4 (length recs))) [] = Inr ms"
    by (rule whileMarkers_headers_inside [OF assms(2) _ bound]) simp
  then obtain ms where "whileMarkers byID (take n (markerBlock recs)) floor (length recs) 4 [] = Inr ms"
    by (auto simp: markerBlock_def simp del: uintLE.simps)
  then show ?thesis
    using count by (simp add: parseMarkerData_def)
qed


text \<open>
  A block that is cut inside the text of its last record: every record is read, the
  last one with the part of its text that the buffer has.
\<close>

lemma readMarker_truncated_record:
  assumes "rec_imageID r < 2 ^ 32" and "length (rec_text r) < 2 ^ 16"
    and "length pre + 14 \<le> n"
  shows "readMarker byID (take n (pre @ recordBytes r @ post)) floor (length pre) =
           Inr (markerOf byID floor
                  (r \<lparr> rec_text := take (n - (length pre + 14)) (rec_text r) \<rparr>),
                length (pre @ recordBytes r))"
proof -
  define full where "full = pre @ recordBytes r @ post"
  define b where "b = take n full"
  have fits: "length pre + 14 \<le> length b"
    using assms(3) by (simp add: b_def full_def length_recordBytes)
  have "take 2 (drop (length pre + 12) b) = take 2 (drop (length pre + 12) full)"
    unfolding b_def using assms(3) by (intro take_drop_take) simp
  also have "\<dots> = uintLE 2 (length (rec_text r))"
    by (simp add: full_def recordBytes_def del: uintLE.simps)
  finally have len: "littleEndian (take 2 (drop (length pre + 12) b)) = length (rec_text r)"
    using assms(2) littleEndian_uintLE_2 [of "length (rec_text r)"] by simp
  have "take 4 (drop (length pre + 8) b) = take 4 (drop (length pre + 8) full)"
    unfolding b_def using assms(3) by (intro take_drop_take) simp
  also have "\<dots> = uintLE 4 (rec_imageID r)"
    by (simp add: full_def recordBytes_def del: uintLE.simps)
  finally have img: "littleEndian (take 4 (drop (length pre + 8) b)) = rec_imageID r"
    using assms(1) littleEndian_uintLE_4 [of "rec_imageID r"] by simp
  have nth: "b ! length pre = rec_xOffset r" "b ! (length pre + 1) = rec_xTile r"
    "b ! (length pre + 4) = rec_yOffset r" "b ! (length pre + 5) = rec_yTile r"
    using assms(3) by (simp_all add: b_def full_def recordBytes_def nth_append del: uintLE.simps)
  have "drop (length pre + 14) full = rec_text r @ post"
    by (simp add: full_def recordBytes_def del: uintLE.simps)
  then have "drop (length pre + 14) b = take (n - (length pre + 14)) (rec_text r @ post)"
    by (simp add: b_def drop_take)
  then have "slice_buf b (length pre + 14) (length pre + 14 + length (rec_text r))
          = take (length (rec_text r)) (take (n - (length pre + 14)) (rec_text r @ post))"
    by (simp add: slice_buf_def)
  also have "\<dots> = take (n - (length pre + 14)) (rec_text r)"
    by (simp add: min_def)
  finally have text_eq: "slice_buf b (length pre + 14)
          (length pre + 14 + littleEndian (take 2 (drop (length pre + 12) b)))
        = take (n - (length pre + 14)) (rec_text r)"
    by (simp only: len)
  have "length (pre @ recordBytes r) = length pre + 14 + length (rec_text r)"
    by (simp add: length_recordBytes)
  with len have nxt: "length pre + 14 + littleEndian (take 2 (drop (length pre + 12) b))
             = length (pre @ recordBytes r)"
    by linarith
  have "readMarker byID b floor (length pre) =
           Inr (markerOf byID floor
                  (r \<lparr> rec_text := take (n - (length pre + 14)) (rec_text r) \<rparr>),
                length (pre @ recordBytes r))"
    unfolding readMarker_eq using fits
    by (simp only: if_True text_eq img nth) (simp add: markerOf_def nxt)
  then show ?thesis by (simp only: b_def full_def)
qed

lemma cutLastText_Cons:
  "rs \<noteq> [] \<Longrightarrow> cutLastText k (r # rs) = r # cutLastText k rs"
  by (simp add: cutLastText_def)

lemma whileMarkers_cut_text:
  assumes "\<forall>r \<in> set rs. rec_imageID r < 2 ^ 32 \<and> length (rec_text r) < 2 ^ 16"
    and "length acc + length rs = markerCount"
    and "rs \<noteq> [] \<longrightarrow> length pre + length (concat (map recordBytes (butlast rs))) + 14 \<le> n"
  shows "whileMarkers byID (take n (pre @ concat (map recordBytes rs))) floor markerCount
           (length pre) acc =
         Inr (acc @ map (markerOf byID floor)
                (cutLastText
                   (n - (length pre + length (concat (map recordBytes (butlast rs))) + 14)) rs))"
  using assms
proof (induction rs arbitrary: pre acc)
  case Nil
  then show ?case by (simp add: whileMarkers_done cutLastText_def)
next
  case (Cons r rs)
  have more: "length acc < markerCount" using Cons.prems(2) by simp
  have inside: "length pre + 14 \<le> n" using Cons.prems(3) by simp
  define m where "m = markerOf byID floor
                  (r \<lparr> rec_text := take (n - (length pre + 14)) (rec_text r) \<rparr>)"
  have rd: "readMarker byID (take n (pre @ recordBytes r @ concat (map recordBytes rs)))
                         floor (length pre) = Inr (m, length (pre @ recordBytes r))"
    unfolding m_def using Cons.prems(1) inside by (intro readMarker_truncated_record) auto
  have step: "whileMarkers byID (take n (pre @ concat (map recordBytes (r # rs)))) floor markerCount
           (length pre) acc =
          whileMarkers byID (take n ((pre @ recordBytes r) @ concat (map recordBytes rs))) floor
            markerCount (length (pre @ recordBytes r)) (acc @ [m])"
    using rd more by (simp add: whileMarkers_step)
  show ?case
  proof (cases "rs = []")
    case True
    have "whileMarkers byID (take n ((pre @ recordBytes r) @ concat (map recordBytes rs))) floor
            markerCount (length (pre @ recordBytes r)) (acc @ [m]) = Inr (acc @ [m])"
      using Cons.prems(2) True by (intro whileMarkers_done) simp
    then show ?thesis
      unfolding step using True by (simp add: cutLastText_def m_def)
  next
    case False
    have whole: "length pre + 14 + length (rec_text r) \<le> n"
      using Cons.prems(3) False by (simp add: length_recordBytes)
    then have "take (n - (length pre + 14)) (rec_text r) = rec_text r" by simp
    then have m: "m = markerOf byID floor r" by (simp add: m_def)
    have "whileMarkers byID (take n ((pre @ recordBytes r) @ concat (map recordBytes rs))) floor
            markerCount (length (pre @ recordBytes r)) (acc @ [m]) =
          Inr ((acc @ [m]) @ map (markerOf byID floor)
                (cutLastText
                   (n - (length (pre @ recordBytes r)
                         + length (concat (map recordBytes (butlast rs))) + 14)) rs))"
    proof (rule Cons.IH)
      show "\<forall>r \<in> set rs. rec_imageID r < 2 ^ 32 \<and> length (rec_text r) < 2 ^ 16"
        using Cons.prems(1) by simp
      show "length (acc @ [m]) + length rs = markerCount" using Cons.prems(2) by simp
      show "rs \<noteq> [] \<longrightarrow>
            length (pre @ recordBytes r) + length (concat (map recordBytes (butlast rs))) + 14 \<le> n"
        using Cons.prems(3) by auto
    qed
    then show ?thesis
      unfolding step using False by (simp add: cutLastText_Cons m add.assoc)
  qed
qed

lemma parseMarkerData_cut_text:
  assumes "length recs < 2 ^ 32"
    and "\<forall>r \<in> set recs. rec_imageID r < 2 ^ 32 \<and> length (rec_text r) < 2 ^ 16"
    and "length (markerBlock recs)
           - (if recs = [] then 0 else length (rec_text (last recs))) \<le> n"
  shows "parseMarkerData byID (take n (markerBlock recs)) floor =
           Inr (filterUnique {} (sortMarkers (map (markerOf byID floor)
             (cutLastText
                (n - (length (markerBlock recs)
                       - (if recs = [] then 0 else length (rec_text (last recs))))) recs))))"
proof -
  have total: "recs \<noteq> [] \<Longrightarrow> length (concat (map recordBytes recs)) =
            length (concat (map recordBytes (butlast recs))) + 14 + length (rec_text (last recs))"
  proof -
    assume "recs \<noteq> []"
    then have split: "recs = butlast recs @ [last recs]" by simp
    show ?thesis by (subst split) (simp add: length_recordBytes)
  qed
  have bound: "recs \<noteq> [] \<longrightarrow> length (uintLE 4 (length recs))
                  + length (concat (map recordBytes (butlast recs))) + 14 \<le> n"
    using assms(3) total by (auto simp: length_markerBlock)
  have n4: "4 \<le> n"
  proof (cases "recs = []")
    case True
    then show ?thesis using assms(3) by (simp add: length_markerBlock)
  next
    case False
    then show ?thesis using bound by simp
  qed
  have k: "length (markerBlock recs)
             - (if recs = [] then 0 else length (rec_text (last recs)))
           = (if recs = [] then 4
              else length (uintLE 4 (length recs))
                   + length (concat (map recordBytes (butlast recs))) + 14)"
    using total by (auto simp: length_markerBlock)
  have count: "readUIntLE (take n (markerBlock recs)) 0 4 = Inr (length recs)"
    using n4 assms(1)
    by (simp add: readUIntLE_def markerBlock_def littleEndian_uintLE_4 min_def del: uintLE.simps)
  have "whileMarkers byID (take n (uintLE 4 (length recs) @ concat (map recordBytes recs)))
               floor (length recs) (length (uintLE 4 (length recs))) [] =
         Inr ([] @ map (markerOf byID floor)
                (cutLastText
                   (n - (length (uintLE 4 (length recs))
                         + length (concat (map recordBytes (butlast recs))) + 14)) recs))"
    by (rule whileMarkers_cut_text [OF assms(2) _ bound]) simp
  then have "whileMarkers byID (take n (markerBlock recs)) floor (length recs) 4 [] =
         Inr (map (markerOf byID floor)
                (cutLastText
                   (n - (length (markerBlock recs)
                       - (if recs = [] then 0 else length (rec_text (last recs))))) recs))"
    unfolding k by (cases "recs = []") (simp_all add: markerBlock_def cutLastText_def del: uintLE.simps)
  then show ?thesis
    using count by (cases "recs = []") (simp_all add: parseMarkerData_def cutLastText_def sortMarkers_def)
qed
subsection \<open>A block with a duplicate\<close>

lemma uintLE_2:
  "uintLE 2 v = [word_of_nat (v mod 256), word_of_nat (v div 256 mod 256)]"
proof -
  have two: "(2::nat) = Suc (Suc 0)" by simp
  show ?thesis unfolding two by simp
qed

lemma uintLE_4:
  "uintLE 4 v = [word_of_nat (v mod 256), word_of_nat (v div 256 mod 256),
                 word_of_nat (v div 256 div 256 mod 256),
                 word_of_nat (v div 256 div 256 div 256 mod 256)]"
proof -
  have four: "(4::nat) = Suc (Suc (Suc (Suc 0)))" by simp
  show ?thesis unfolding four by simp
qed

lemma duplicateBlock_bytes:
  "markerBlock duplicateRecords @ [7, 7] =
     [3, 0, 0, 0,
      5, 1, 0, 0, 6, 2, 0, 0, 3, 0, 0, 0, 2, 0, 0x41, 0x62,
      9, 0, 0, 0, 9, 0, 0, 0, 0, 0, 0, 0, 0, 0,
      5, 1, 0, 0, 6, 2, 0, 0, 3, 0, 0, 0, 2, 0, 0x61, 0x42,
      7, 7]"
  by (simp add: markerBlock_def duplicateRecords_def recordBytes_def uintLE_2 uintLE_4)

lemma duplicateRecords_markers:
  "map (\<lambda>r. \<lparr> m_description = windows1252_decode (rec_text r),
                  m_icon = exampleIcons (rec_imageID r),
                  m_x = unat (rec_xTile r) * 256 + unat (rec_xOffset r),
                  m_y = unat (rec_yTile r) * 256 + unat (rec_yOffset r),
                  m_z = 7 \<rparr>) duplicateRecords = [markerAb, markerPlain, markerAB']"
  by (simp add: duplicateRecords_def markerAb_def markerPlain_def markerAB'_def exampleIcons_def
        windows1252_decode_def windows1252_char_def)

lemma duplicateRecords_unique:
  "filterUnique {} (sortMarkers [markerAb, markerPlain, markerAB']) = [markerPlain, markerAb]"
  by (simp add: markerAb_def markerPlain_def markerAB'_def marker_eval)

lemma duplicateRecords_wf:
  "length duplicateRecords < 2 ^ 32"
  "\<forall>r \<in> set duplicateRecords. rec_imageID r < 2 ^ 32 \<and> length (rec_text r) < 2 ^ 16"
  "length duplicateRecords = 3"
  by (simp_all add: duplicateRecords_def)

theorem parseMarkerData_markerBlock_witness:
  "markerBlock duplicateRecords @ [7, 7] =
     [3, 0, 0, 0,
      5, 1, 0, 0, 6, 2, 0, 0, 3, 0, 0, 0, 2, 0, 0x41, 0x62,
      9, 0, 0, 0, 9, 0, 0, 0, 0, 0, 0, 0, 0, 0,
      5, 1, 0, 0, 6, 2, 0, 0, 3, 0, 0, 0, 2, 0, 0x61, 0x42,
      7, 7]
   \<and> readUIntLE (markerBlock duplicateRecords @ [7, 7]) 0 4 = Inr 3
   \<and> whileMarkers exampleIcons (markerBlock duplicateRecords @ [7, 7]) 7 3 4 [] =
         Inr [markerAb, markerPlain, markerAB']
   \<and> parseMarkerData exampleIcons (markerBlock duplicateRecords @ [7, 7]) 7 =
         Inr [markerPlain, markerAb]"
  using parseMarkerData_markerBlock [OF duplicateRecords_wf(1,2), of "[7, 7]" exampleIcons 7]
    duplicateBlock_bytes
  unfolding duplicateRecords_markers duplicateRecords_wf(3) duplicateRecords_unique
  by blast



section \<open>Rendering a layer\<close>

lemma canvas_eqI:
  fixes a b :: canvas
  assumes "cwidth a = cwidth b" and "cheight a = cheight b"
    and "\<And>col row. cpixels a col row = cpixels b col row"
  shows "a = b"
  using assms by (simp add: canvas.equality fun_eq_iff)

lemma imageData_eqI:
  fixes a b :: imageData
  assumes "iwidth a = iwidth b" and "iheight a = iheight b"
    and "\<And>col row. idata a col row = idata b col row"
  shows "a = b"
  using assms by (simp add: imageData.equality fun_eq_iff)

lemma pixelImageData_fields:
  "iwidth (pixelImageData c) = 1" "iheight (pixelImageData c) = 1"
  "idata (pixelImageData c) col row = (if col < 1 \<and> row < 1 then opaque c else (0, 0, 0, 0))"
  by (cases c; simp add: pixelImageData_def opaque_def)+

lemma putImageData_pixel:
  "putImageData (pixelImageData c) dx dy ctx =
     ctx \<lparr> cpixels := (\<lambda>col row.
        if col < cwidth ctx \<and> row < cheight ctx \<and> int col = dx \<and> int row = dy
        then opaque c else cpixels ctx col row) \<rparr>"
  by (rule canvas_eqI) (auto simp: putImageData_def pixelImageData_fields)

lemma mapPalette_known:
  "knownAt mapPixelPalette buffer i \<Longrightarrow>
     paletteAt mapPixelPalette (byteAt buffer i) = Some (pixelImageData (colorAt byByte buffer i))"
  by (auto simp: knownAt_def paletteAt_def byteAt_def colorAt_def mapPixelPalette_lookup
           split: option.splits if_splits)

lemma renderMapInner_ok:
  assumes "yIndex \<le> 255"
    and "\<forall>y. yIndex < y \<and> y < 256 \<longrightarrow> knownAt mapPixelPalette buffer (bufferIndex + (y - yIndex))"
  shows "renderMapInner buffer xIndex yIndex bufferIndex ctx con =
     (Inr (bufferIndex + (255 - yIndex),
           ctx \<lparr> cpixels := (\<lambda>col row.
              if col < cwidth ctx \<and> row < cheight ctx \<and> int col = xIndex
                 \<and> yIndex < int row \<and> int row < 256
              then opaque (colorAt byByte buffer (bufferIndex + (int row - yIndex)))
              else cpixels ctx col row) \<rparr>), con)"
  using assms
proof (induction buffer xIndex yIndex bufferIndex ctx con rule: renderMapInner.induct)
  case (1 buffer xIndex yIndex bufferIndex ctx con)
  show ?case
  proof (cases "yIndex + 1 < 256")
    case False
    then have y: "yIndex = 255" using "1.prems"(1) by simp
    have stop: "renderMapInner buffer xIndex yIndex bufferIndex ctx con =
                  (Inr (bufferIndex, ctx), con)"
      using False by (subst renderMapInner.simps) simp
    have "ctx \<lparr> cpixels := (\<lambda>col row.
              if col < cwidth ctx \<and> row < cheight ctx \<and> int col = xIndex
                 \<and> yIndex < int row \<and> int row < 256
              then opaque (colorAt byByte buffer (bufferIndex + (int row - yIndex)))
              else cpixels ctx col row) \<rparr> = ctx"
      by (rule canvas_eqI) (auto simp: y)
    then show ?thesis using stop y by simp
  next
    case True
    have known: "knownAt mapPixelPalette buffer (bufferIndex + 1)"
      using "1.prems"(2) True by (auto dest: spec [of _ "yIndex + 1"])
    note pal = mapPalette_known [OF known]
    let ?ctx' = "putImageData (pixelImageData (colorAt byByte buffer (bufferIndex + 1)))
                       xIndex (yIndex + 1) ctx"
    have rest: "\<forall>y. yIndex + 1 < y \<and> y < 256 \<longrightarrow>
                  knownAt mapPixelPalette buffer (bufferIndex + 1 + (y - (yIndex + 1)))"
      using "1.prems"(2) by auto
    have IH: "renderMapInner buffer xIndex (yIndex + 1) (bufferIndex + 1) ?ctx' con =
      (Inr (bufferIndex + 1 + (255 - (yIndex + 1)),
           ?ctx' \<lparr> cpixels := (\<lambda>col row.
              if col < cwidth ?ctx' \<and> row < cheight ?ctx' \<and> int col = xIndex
                 \<and> yIndex + 1 < int row \<and> int row < 256
              then opaque (colorAt byByte buffer (bufferIndex + 1 + (int row - (yIndex + 1))))
              else cpixels ?ctx' col row) \<rparr>), con)"
      using True pal rest
      by (intro "1.IH" [where x = "byteAt buffer (bufferIndex + 1)" and xb = con]) (auto simp: consoleAssert_def)
    have ctx: "?ctx' \<lparr> cpixels := (\<lambda>col row.
              if col < cwidth ?ctx' \<and> row < cheight ?ctx' \<and> int col = xIndex
                 \<and> yIndex + 1 < int row \<and> int row < 256
              then opaque (colorAt byByte buffer (bufferIndex + 1 + (int row - (yIndex + 1))))
              else cpixels ?ctx' col row) \<rparr>
         = ctx \<lparr> cpixels := (\<lambda>col row.
              if col < cwidth ctx \<and> row < cheight ctx \<and> int col = xIndex
                 \<and> yIndex < int row \<and> int row < 256
              then opaque (colorAt byByte buffer (bufferIndex + (int row - yIndex)))
              else cpixels ctx col row) \<rparr>"
      using True
      by (intro canvas_eqI) (auto simp: putImageData_pixel intro!: arg_cong [where f = opaque] arg_cong [where f = "colorAt byByte buffer"])
    have step: "renderMapInner buffer xIndex yIndex bufferIndex ctx con =
                  renderMapInner buffer xIndex (yIndex + 1) (bufferIndex + 1) ?ctx' con"
      using True pal by (subst renderMapInner.simps) (simp add: Let_def consoleAssert_def)
    have "bufferIndex + 1 + (255 - (yIndex + 1)) = bufferIndex + (255 - yIndex)"
      by simp
    then show ?thesis
      by (simp only: step IH ctx)
  qed
qed


lemma renderMapInner_fail:
  assumes "yIndex < y0" and "y0 < 256"
    and "\<not> knownAt mapPixelPalette buffer (bufferIndex + (y0 - yIndex))"
    and "\<forall>y. yIndex < y \<and> y < y0 \<longrightarrow> knownAt mapPixelPalette buffer (bufferIndex + (y - yIndex))"
  shows "renderMapInner buffer xIndex yIndex bufferIndex ctx con =
           (Inl TypeError,
            con @ [AssertUnknownColorID (byteAt buffer (bufferIndex + (y0 - yIndex)))])"
  using assms
proof (induction "nat (y0 - yIndex)" arbitrary: yIndex bufferIndex ctx)
  case 0
  then show ?case by simp
next
  case (Suc n)
  have more: "yIndex + 1 < 256" using Suc.prems(1,2) by simp
  show ?case
  proof (cases "y0 = yIndex + 1")
    case True
    then have "paletteAt mapPixelPalette (byteAt buffer (bufferIndex + 1)) = None"
      using Suc.prems(3) by (simp add: knownAt_def)
    then show ?thesis
      using more True
      by (subst renderMapInner.simps) (simp add: Let_def consoleAssert_def)
  next
    case False
    then have next_lt: "yIndex + 1 < y0" using Suc.prems(1) by simp
    have known: "knownAt mapPixelPalette buffer (bufferIndex + 1)"
      using Suc.prems(4) next_lt by (auto dest: spec [of _ "yIndex + 1"])
    note pal = mapPalette_known [OF known]
    let ?ctx' = "putImageData (pixelImageData (colorAt byByte buffer (bufferIndex + 1)))
                       xIndex (yIndex + 1) ctx"
    have step: "renderMapInner buffer xIndex yIndex bufferIndex ctx con =
                  renderMapInner buffer xIndex (yIndex + 1) (bufferIndex + 1) ?ctx' con"
      using more pal by (subst renderMapInner.simps) (simp add: Let_def consoleAssert_def)
    have "renderMapInner buffer xIndex (yIndex + 1) (bufferIndex + 1) ?ctx' con =
           (Inl TypeError,
            con @ [AssertUnknownColorID (byteAt buffer (bufferIndex + 1 + (y0 - (yIndex + 1))))])"
    proof (rule Suc.hyps(1))
      show "n = nat (y0 - (yIndex + 1))" using Suc.hyps(2) by simp
      show "yIndex + 1 < y0" by (rule next_lt)
      show "y0 < 256" by (rule Suc.prems(2))
      show "\<not> knownAt mapPixelPalette buffer (bufferIndex + 1 + (y0 - (yIndex + 1)))"
        using Suc.prems(3) by simp
      show "\<forall>y. yIndex + 1 < y \<and> y < y0 \<longrightarrow>
              knownAt mapPixelPalette buffer (bufferIndex + 1 + (y - (yIndex + 1)))"
        using Suc.prems(4) by auto
    qed
    then show ?thesis unfolding step by simp
  qed
qed

lemma renderMapOuter_ok:
  assumes "xIndex \<le> 255"
    and "\<forall>j. 0 < j \<and> j \<le> 256 * (255 - xIndex) \<longrightarrow> knownAt mapPixelPalette buffer (bufferIndex + j)"
  shows "renderMapOuter buffer xIndex bufferIndex ctx con =
     (Inr (bufferIndex + 256 * (255 - xIndex),
           ctx \<lparr> cpixels := (\<lambda>col row.
              if col < cwidth ctx \<and> row < cheight ctx \<and> xIndex < int col \<and> int col < 256
                 \<and> int row < 256
              then opaque (colorAt byByte buffer
                     (bufferIndex + 256 * (int col - xIndex - 1) + int row + 1))
              else cpixels ctx col row) \<rparr>), con)"
  using assms
proof (induction "nat (255 - xIndex)" arbitrary: xIndex bufferIndex ctx)
  case 0
  then have x: "xIndex = 255" by simp
  have stop: "renderMapOuter buffer xIndex bufferIndex ctx con = (Inr (bufferIndex, ctx), con)"
    using x by (subst renderMapOuter.simps) simp
  have "ctx \<lparr> cpixels := (\<lambda>col row.
              if col < cwidth ctx \<and> row < cheight ctx \<and> xIndex < int col \<and> int col < 256
                 \<and> int row < 256
              then opaque (colorAt byByte buffer
                     (bufferIndex + 256 * (int col - xIndex - 1) + int row + 1))
              else cpixels ctx col row) \<rparr> = ctx"
    by (rule canvas_eqI) (auto simp: x)
  then show ?case using stop x by simp
next
  case (Suc n)
  have more: "xIndex + 1 < 256" using Suc.hyps(2) by simp
  let ?ctx1 = "ctx \<lparr> cpixels := (\<lambda>col row.
              if col < cwidth ctx \<and> row < cheight ctx \<and> int col = xIndex + 1
                 \<and> - 1 < int row \<and> int row < 256
              then opaque (colorAt byByte buffer (bufferIndex + (int row - (- 1))))
              else cpixels ctx col row) \<rparr>"
  have inner: "renderMapInner buffer (xIndex + 1) (- 1) bufferIndex ctx con =
                 (Inr (bufferIndex + (255 - (- 1)), ?ctx1), con)"
  proof (rule renderMapInner_ok)
    show "(- 1 :: int) \<le> 255" by simp
    show "\<forall>y. - 1 < y \<and> y < 256 \<longrightarrow> knownAt mapPixelPalette buffer (bufferIndex + (y - (- 1)))"
      using Suc.prems(2) more by auto
  qed
  have step: "renderMapOuter buffer xIndex bufferIndex ctx con =
                renderMapOuter buffer (xIndex + 1) (bufferIndex + (255 - (- 1))) ?ctx1 con"
    using more by (subst renderMapOuter.simps) (simp only: inner if_True prod.case sum.case)
  have IH: "renderMapOuter buffer (xIndex + 1) (bufferIndex + (255 - (- 1))) ?ctx1 con =
     (Inr (bufferIndex + (255 - (- 1)) + 256 * (255 - (xIndex + 1)),
           ?ctx1 \<lparr> cpixels := (\<lambda>col row.
              if col < cwidth ?ctx1 \<and> row < cheight ?ctx1 \<and> xIndex + 1 < int col \<and> int col < 256
                 \<and> int row < 256
              then opaque (colorAt byByte buffer
                     (bufferIndex + (255 - (- 1)) + 256 * (int col - (xIndex + 1) - 1) + int row + 1))
              else cpixels ?ctx1 col row) \<rparr>), con)"
  proof (rule Suc.hyps(1))
    show "n = nat (255 - (xIndex + 1))" using Suc.hyps(2) by simp
    show "xIndex + 1 \<le> 255" using more by simp
    show "\<forall>j. 0 < j \<and> j \<le> 256 * (255 - (xIndex + 1)) \<longrightarrow>
            knownAt mapPixelPalette buffer (bufferIndex + (255 - (- 1)) + j)"
    proof (intro allI impI)
      fix j :: int assume "0 < j \<and> j \<le> 256 * (255 - (xIndex + 1))"
      then have "0 < 256 + j \<and> 256 + j \<le> 256 * (255 - xIndex)" by simp
      then have "knownAt mapPixelPalette buffer (bufferIndex + (256 + j))"
        using Suc.prems(2) by blast
      then show "knownAt mapPixelPalette buffer (bufferIndex + (255 - (- 1)) + j)"
        by (simp add: add.assoc)
    qed
  qed
  have ctx_eq: "?ctx1 \<lparr> cpixels := (\<lambda>col row.
              if col < cwidth ?ctx1 \<and> row < cheight ?ctx1 \<and> xIndex + 1 < int col \<and> int col < 256
                 \<and> int row < 256
              then opaque (colorAt byByte buffer
                     (bufferIndex + (255 - (- 1)) + 256 * (int col - (xIndex + 1) - 1) + int row + 1))
              else cpixels ?ctx1 col row) \<rparr>
        = ctx \<lparr> cpixels := (\<lambda>col row.
              if col < cwidth ctx \<and> row < cheight ctx \<and> xIndex < int col \<and> int col < 256
                 \<and> int row < 256
              then opaque (colorAt byByte buffer
                     (bufferIndex + 256 * (int col - xIndex - 1) + int row + 1))
              else cpixels ctx col row) \<rparr>"
    using more
    by (intro canvas_eqI)
       (auto intro!: arg_cong [where f = opaque] arg_cong [where f = "colorAt byByte buffer"])
  have "bufferIndex + (255 - (- 1)) + 256 * (255 - (xIndex + 1)) = bufferIndex + 256 * (255 - xIndex)"
    by simp
  then show ?case
    by (simp only: step IH ctx_eq)
qed


lemma renderMapOuter_fail:
  assumes "0 < j0" and "j0 \<le> 256 * (255 - xIndex)"
    and "\<not> knownAt mapPixelPalette buffer (bufferIndex + j0)"
    and "\<forall>j. 0 < j \<and> j < j0 \<longrightarrow> knownAt mapPixelPalette buffer (bufferIndex + j)"
  shows "renderMapOuter buffer xIndex bufferIndex ctx con =
           (Inl TypeError, con @ [AssertUnknownColorID (byteAt buffer (bufferIndex + j0))])"
  using assms
proof (induction "nat (255 - xIndex)" arbitrary: xIndex bufferIndex ctx j0)
  case 0
  then show ?case by simp
next
  case (Suc n)
  have more: "xIndex + 1 < 256" using Suc.hyps(2) by simp
  show ?case
  proof (cases "j0 \<le> 256")
    case True
    have "renderMapInner buffer (xIndex + 1) (- 1) bufferIndex ctx con =
            (Inl TypeError,
             con @ [AssertUnknownColorID (byteAt buffer (bufferIndex + ((j0 - 1) - (- 1))))])"
    proof (rule renderMapInner_fail)
      show "- 1 < j0 - 1" using Suc.prems(1) by simp
      show "j0 - 1 < 256" using True by simp
      show "\<not> knownAt mapPixelPalette buffer (bufferIndex + ((j0 - 1) - (- 1)))"
        using Suc.prems(3) by simp
      show "\<forall>y. - 1 < y \<and> y < j0 - 1 \<longrightarrow>
              knownAt mapPixelPalette buffer (bufferIndex + (y - (- 1)))"
        using Suc.prems(4) by auto
    qed
    then have inner: "renderMapInner buffer (xIndex + 1) (- 1) bufferIndex ctx con =
            (Inl TypeError, con @ [AssertUnknownColorID (byteAt buffer (bufferIndex + j0))])"
      by simp
    show ?thesis
      using more by (subst renderMapOuter.simps) (simp only: inner if_True prod.case sum.case)
  next
    case False
    obtain ctx1 where inner: "renderMapInner buffer (xIndex + 1) (- 1) bufferIndex ctx con =
                 (Inr (bufferIndex + (255 - (- 1)), ctx1), con)"
    proof -
      have "\<forall>y. - 1 < y \<and> y < 256 \<longrightarrow>
              knownAt mapPixelPalette buffer (bufferIndex + (y - (- 1)))"
        using Suc.prems(4) False by auto
      then show ?thesis
        using renderMapInner_ok [of "- 1" buffer bufferIndex "xIndex + 1" ctx con] that
        by simp
    qed
    have step: "renderMapOuter buffer xIndex bufferIndex ctx con =
                  renderMapOuter buffer (xIndex + 1) (bufferIndex + (255 - (- 1))) ctx1 con"
      using more by (subst renderMapOuter.simps) (simp only: inner if_True prod.case sum.case)
    have "renderMapOuter buffer (xIndex + 1) (bufferIndex + (255 - (- 1))) ctx1 con =
           (Inl TypeError,
            con @ [AssertUnknownColorID (byteAt buffer (bufferIndex + (255 - (- 1)) + (j0 - 256)))])"
    proof (rule Suc.hyps(1))
      show "n = nat (255 - (xIndex + 1))" using Suc.hyps(2) by simp
      show "0 < j0 - 256" using False by simp
      show "j0 - 256 \<le> 256 * (255 - (xIndex + 1))" using Suc.prems(2) by simp
      show "\<not> knownAt mapPixelPalette buffer (bufferIndex + (255 - (- 1)) + (j0 - 256))"
        using Suc.prems(3) by simp
      show "\<forall>j. 0 < j \<and> j < j0 - 256 \<longrightarrow>
              knownAt mapPixelPalette buffer (bufferIndex + (255 - (- 1)) + j)"
      proof (intro allI impI)
        fix j :: int assume "0 < j \<and> j < j0 - 256"
        then have "0 < 256 + j \<and> 256 + j < j0" by simp
        then have "knownAt mapPixelPalette buffer (bufferIndex + (256 + j))"
          using Suc.prems(4) by blast
        then show "knownAt mapPixelPalette buffer (bufferIndex + (255 - (- 1)) + j)"
          by (simp add: add.assoc)
      qed
    qed
    then show ?thesis unfolding step by simp
  qed
qed

lemma renderMap_ok:
  assumes "\<forall>i < 65536. knownAt mapPixelPalette buffer (int i)"
  shows "renderMap buffer con =
           (Inr \<lparr> iwidth = 256, iheight = 256,
                  idata = (\<lambda>col row. if col < 256 \<and> row < 256
                             then opaque (colorAt byByte buffer (int (col * 256 + row)))
                             else (0, 0, 0, 0)) \<rparr>, con)"
proof -
  let ?ctx = "(newCanvas 256 256) \<lparr> cpixels := (\<lambda>col row.
              if col < cwidth (newCanvas 256 256) \<and> row < cheight (newCanvas 256 256)
                 \<and> - 1 < int col \<and> int col < 256 \<and> int row < 256
              then opaque (colorAt byByte buffer
                     (- 1 + 256 * (int col - (- 1) - 1) + int row + 1))
              else cpixels (newCanvas 256 256) col row) \<rparr>"
  have known: "\<forall>j. 0 < j \<and> j \<le> 256 * (255 - (- 1)) \<longrightarrow>
                 knownAt mapPixelPalette buffer (- 1 + j)"
  proof (intro allI impI)
    fix j :: int assume j: "0 < j \<and> j \<le> 256 * (255 - (- 1))"
    then have "nat (j - 1) < 65536" by auto
    then have "knownAt mapPixelPalette buffer (int (nat (j - 1)))" using assms by blast
    then show "knownAt mapPixelPalette buffer (- 1 + j)" using j by simp
  qed
  have outer: "renderMapOuter buffer (- 1) (- 1) (newCanvas 256 256) con =
                 (Inr (- 1 + 256 * (255 - (- 1)), ?ctx), con)"
    by (rule renderMapOuter_ok [OF _ known]) simp
  have img: "getImageData ?ctx 0 0 256 256 =
               \<lparr> iwidth = 256, iheight = 256,
                  idata = (\<lambda>col row. if col < 256 \<and> row < 256
                             then opaque (colorAt byByte buffer (int (col * 256 + row)))
                             else (0, 0, 0, 0)) \<rparr>"
    by (rule imageData_eqI)
       (auto simp: getImageData_def newCanvas_def
             intro!: arg_cong [where f = opaque] arg_cong [where f = "colorAt byByte buffer"])
  show ?thesis
    unfolding renderMap_def by (simp only: outer prod.case sum.case img)
qed

lemma renderMap_fail:
  assumes "i0 < 65536" and "\<not> knownAt mapPixelPalette buffer (int i0)"
    and "\<forall>i < i0. knownAt mapPixelPalette buffer (int i)"
  shows "renderMap buffer con =
           (Inl TypeError, con @ [AssertUnknownColorID (byteAt buffer (int i0))])"
proof -
  have "renderMapOuter buffer (- 1) (- 1) (newCanvas 256 256) con =
          (Inl TypeError, con @ [AssertUnknownColorID (byteAt buffer (- 1 + (int i0 + 1)))])"
  proof (rule renderMapOuter_fail)
    show "0 < int i0 + 1" by simp
    show "int i0 + 1 \<le> 256 * (255 - (- 1))" using assms(1) by simp
    show "\<not> knownAt mapPixelPalette buffer (- 1 + (int i0 + 1))" using assms(2) by simp
    show "\<forall>j. 0 < j \<and> j < int i0 + 1 \<longrightarrow> knownAt mapPixelPalette buffer (- 1 + j)"
    proof (intro allI impI)
      fix j :: int assume j: "0 < j \<and> j < int i0 + 1"
      then have "nat (j - 1) < i0" by auto
      then have "knownAt mapPixelPalette buffer (int (nat (j - 1)))" using assms(3) by blast
      then show "knownAt mapPixelPalette buffer (- 1 + j)" using j by simp
    qed
  qed
  then have outer: "renderMapOuter buffer (- 1) (- 1) (newCanvas 256 256) con =
          (Inl TypeError, con @ [AssertUnknownColorID (byteAt buffer (int i0))])"
    by simp
  show ?thesis
    unfolding renderMap_def by (simp only: outer prod.case sum.case)
qed



lemma pathPixelPalette_colors: "pathPixelPalette b = map_option pixelImageData (pathColors b)"
  by (simp add: pathPixelPalette_lookup pathColors_def)

lemma pathPalette_known:
  "knownAt pathPixelPalette buffer i \<Longrightarrow>
     paletteAt pathPixelPalette (byteAt buffer i) = Some (pixelImageData (colorAt pathColors buffer i))"
  by (auto simp: knownAt_def paletteAt_def byteAt_def colorAt_def pathPixelPalette_colors
           split: option.splits if_splits)

lemma renderPathInner_ok:
  assumes "yIndex \<le> 255"
    and "\<forall>y. yIndex < y \<and> y < 256 \<longrightarrow> knownAt pathPixelPalette buffer (bufferIndex + (y - yIndex))"
  shows "renderPathInner buffer xIndex yIndex bufferIndex ctx =
     Inr (bufferIndex + (255 - yIndex),
           ctx \<lparr> cpixels := (\<lambda>col row.
              if col < cwidth ctx \<and> row < cheight ctx \<and> int col = xIndex
                 \<and> yIndex < int row \<and> int row < 256
              then opaque (colorAt pathColors buffer (bufferIndex + (int row - yIndex)))
              else cpixels ctx col row) \<rparr>)"
  using assms
proof (induction buffer xIndex yIndex bufferIndex ctx rule: renderPathInner.induct)
  case (1 buffer xIndex yIndex bufferIndex ctx)
  show ?case
  proof (cases "yIndex + 1 < 256")
    case False
    then have y: "yIndex = 255" using "1.prems"(1) by simp
    have stop: "renderPathInner buffer xIndex yIndex bufferIndex ctx =
                  Inr (bufferIndex, ctx)"
      using False by (subst renderPathInner.simps) simp
    have "ctx \<lparr> cpixels := (\<lambda>col row.
              if col < cwidth ctx \<and> row < cheight ctx \<and> int col = xIndex
                 \<and> yIndex < int row \<and> int row < 256
              then opaque (colorAt pathColors buffer (bufferIndex + (int row - yIndex)))
              else cpixels ctx col row) \<rparr> = ctx"
      by (rule canvas_eqI) (auto simp: y)
    then show ?thesis using stop y by simp
  next
    case True
    have known: "knownAt pathPixelPalette buffer (bufferIndex + 1)"
      using "1.prems"(2) True by (auto dest: spec [of _ "yIndex + 1"])
    note pal = pathPalette_known [OF known]
    let ?ctx' = "putImageData (pixelImageData (colorAt pathColors buffer (bufferIndex + 1)))
                       xIndex (yIndex + 1) ctx"
    have rest: "\<forall>y. yIndex + 1 < y \<and> y < 256 \<longrightarrow>
                  knownAt pathPixelPalette buffer (bufferIndex + 1 + (y - (yIndex + 1)))"
      using "1.prems"(2) by auto
    have IH: "renderPathInner buffer xIndex (yIndex + 1) (bufferIndex + 1) ?ctx' =
      Inr (bufferIndex + 1 + (255 - (yIndex + 1)),
           ?ctx' \<lparr> cpixels := (\<lambda>col row.
              if col < cwidth ?ctx' \<and> row < cheight ?ctx' \<and> int col = xIndex
                 \<and> yIndex + 1 < int row \<and> int row < 256
              then opaque (colorAt pathColors buffer (bufferIndex + 1 + (int row - (yIndex + 1))))
              else cpixels ?ctx' col row) \<rparr>)"
      using True pal rest
      by (intro "1.IH" [where x = "byteAt buffer (bufferIndex + 1)"]) auto
    have ctx: "?ctx' \<lparr> cpixels := (\<lambda>col row.
              if col < cwidth ?ctx' \<and> row < cheight ?ctx' \<and> int col = xIndex
                 \<and> yIndex + 1 < int row \<and> int row < 256
              then opaque (colorAt pathColors buffer (bufferIndex + 1 + (int row - (yIndex + 1))))
              else cpixels ?ctx' col row) \<rparr>
         = ctx \<lparr> cpixels := (\<lambda>col row.
              if col < cwidth ctx \<and> row < cheight ctx \<and> int col = xIndex
                 \<and> yIndex < int row \<and> int row < 256
              then opaque (colorAt pathColors buffer (bufferIndex + (int row - yIndex)))
              else cpixels ctx col row) \<rparr>"
      using True
      by (intro canvas_eqI) (auto simp: putImageData_pixel intro!: arg_cong [where f = opaque] arg_cong [where f = "colorAt pathColors buffer"])
    have step: "renderPathInner buffer xIndex yIndex bufferIndex ctx =
                  renderPathInner buffer xIndex (yIndex + 1) (bufferIndex + 1) ?ctx'"
      using True pal by (subst renderPathInner.simps) (simp add: Let_def)
    have "bufferIndex + 1 + (255 - (yIndex + 1)) = bufferIndex + (255 - yIndex)"
      by simp
    then show ?thesis
      by (simp only: step IH ctx)
  qed
qed


lemma renderPathInner_fail:
  assumes "yIndex < y0" and "y0 < 256"
    and "\<not> knownAt pathPixelPalette buffer (bufferIndex + (y0 - yIndex))"
    and "\<forall>y. yIndex < y \<and> y < y0 \<longrightarrow> knownAt pathPixelPalette buffer (bufferIndex + (y - yIndex))"
  shows "renderPathInner buffer xIndex yIndex bufferIndex ctx =
           Inl TypeError"
  using assms
proof (induction "nat (y0 - yIndex)" arbitrary: yIndex bufferIndex ctx)
  case 0
  then show ?case by simp
next
  case (Suc n)
  have more: "yIndex + 1 < 256" using Suc.prems(1,2) by simp
  show ?case
  proof (cases "y0 = yIndex + 1")
    case True
    then have "paletteAt pathPixelPalette (byteAt buffer (bufferIndex + 1)) = None"
      using Suc.prems(3) by (simp add: knownAt_def)
    then show ?thesis
      using more True
      by (subst renderPathInner.simps) (simp add: Let_def)
  next
    case False
    then have next_lt: "yIndex + 1 < y0" using Suc.prems(1) by simp
    have known: "knownAt pathPixelPalette buffer (bufferIndex + 1)"
      using Suc.prems(4) next_lt by (auto dest: spec [of _ "yIndex + 1"])
    note pal = pathPalette_known [OF known]
    let ?ctx' = "putImageData (pixelImageData (colorAt pathColors buffer (bufferIndex + 1)))
                       xIndex (yIndex + 1) ctx"
    have step: "renderPathInner buffer xIndex yIndex bufferIndex ctx =
                  renderPathInner buffer xIndex (yIndex + 1) (bufferIndex + 1) ?ctx'"
      using more pal by (subst renderPathInner.simps) (simp add: Let_def)
    have "renderPathInner buffer xIndex (yIndex + 1) (bufferIndex + 1) ?ctx' =
           Inl TypeError"
    proof (rule Suc.hyps(1))
      show "n = nat (y0 - (yIndex + 1))" using Suc.hyps(2) by simp
      show "yIndex + 1 < y0" by (rule next_lt)
      show "y0 < 256" by (rule Suc.prems(2))
      show "\<not> knownAt pathPixelPalette buffer (bufferIndex + 1 + (y0 - (yIndex + 1)))"
        using Suc.prems(3) by simp
      show "\<forall>y. yIndex + 1 < y \<and> y < y0 \<longrightarrow>
              knownAt pathPixelPalette buffer (bufferIndex + 1 + (y - (yIndex + 1)))"
        using Suc.prems(4) by auto
    qed
    then show ?thesis unfolding step by simp
  qed
qed

lemma renderPathOuter_ok:
  assumes "xIndex \<le> 255"
    and "\<forall>j. 0 < j \<and> j \<le> 256 * (255 - xIndex) \<longrightarrow> knownAt pathPixelPalette buffer (bufferIndex + j)"
  shows "renderPathOuter buffer xIndex bufferIndex ctx =
     Inr (bufferIndex + 256 * (255 - xIndex),
           ctx \<lparr> cpixels := (\<lambda>col row.
              if col < cwidth ctx \<and> row < cheight ctx \<and> xIndex < int col \<and> int col < 256
                 \<and> int row < 256
              then opaque (colorAt pathColors buffer
                     (bufferIndex + 256 * (int col - xIndex - 1) + int row + 1))
              else cpixels ctx col row) \<rparr>)"
  using assms
proof (induction "nat (255 - xIndex)" arbitrary: xIndex bufferIndex ctx)
  case 0
  then have x: "xIndex = 255" by simp
  have stop: "renderPathOuter buffer xIndex bufferIndex ctx = Inr (bufferIndex, ctx)"
    using x by (subst renderPathOuter.simps) simp
  have "ctx \<lparr> cpixels := (\<lambda>col row.
              if col < cwidth ctx \<and> row < cheight ctx \<and> xIndex < int col \<and> int col < 256
                 \<and> int row < 256
              then opaque (colorAt pathColors buffer
                     (bufferIndex + 256 * (int col - xIndex - 1) + int row + 1))
              else cpixels ctx col row) \<rparr> = ctx"
    by (rule canvas_eqI) (auto simp: x)
  then show ?case using stop x by simp
next
  case (Suc n)
  have more: "xIndex + 1 < 256" using Suc.hyps(2) by simp
  let ?ctx1 = "ctx \<lparr> cpixels := (\<lambda>col row.
              if col < cwidth ctx \<and> row < cheight ctx \<and> int col = xIndex + 1
                 \<and> - 1 < int row \<and> int row < 256
              then opaque (colorAt pathColors buffer (bufferIndex + (int row - (- 1))))
              else cpixels ctx col row) \<rparr>"
  have inner: "renderPathInner buffer (xIndex + 1) (- 1) bufferIndex ctx =
                 Inr (bufferIndex + (255 - (- 1)), ?ctx1)"
  proof (rule renderPathInner_ok)
    show "(- 1 :: int) \<le> 255" by simp
    show "\<forall>y. - 1 < y \<and> y < 256 \<longrightarrow> knownAt pathPixelPalette buffer (bufferIndex + (y - (- 1)))"
      using Suc.prems(2) more by auto
  qed
  have step: "renderPathOuter buffer xIndex bufferIndex ctx =
                renderPathOuter buffer (xIndex + 1) (bufferIndex + (255 - (- 1))) ?ctx1"
    using more by (subst renderPathOuter.simps) (simp only: inner if_True sum.case prod.case)
  have IH: "renderPathOuter buffer (xIndex + 1) (bufferIndex + (255 - (- 1))) ?ctx1 =
     Inr (bufferIndex + (255 - (- 1)) + 256 * (255 - (xIndex + 1)),
           ?ctx1 \<lparr> cpixels := (\<lambda>col row.
              if col < cwidth ?ctx1 \<and> row < cheight ?ctx1 \<and> xIndex + 1 < int col \<and> int col < 256
                 \<and> int row < 256
              then opaque (colorAt pathColors buffer
                     (bufferIndex + (255 - (- 1)) + 256 * (int col - (xIndex + 1) - 1) + int row + 1))
              else cpixels ?ctx1 col row) \<rparr>)"
  proof (rule Suc.hyps(1))
    show "n = nat (255 - (xIndex + 1))" using Suc.hyps(2) by simp
    show "xIndex + 1 \<le> 255" using more by simp
    show "\<forall>j. 0 < j \<and> j \<le> 256 * (255 - (xIndex + 1)) \<longrightarrow>
            knownAt pathPixelPalette buffer (bufferIndex + (255 - (- 1)) + j)"
    proof (intro allI impI)
      fix j :: int assume "0 < j \<and> j \<le> 256 * (255 - (xIndex + 1))"
      then have "0 < 256 + j \<and> 256 + j \<le> 256 * (255 - xIndex)" by simp
      then have "knownAt pathPixelPalette buffer (bufferIndex + (256 + j))"
        using Suc.prems(2) by blast
      then show "knownAt pathPixelPalette buffer (bufferIndex + (255 - (- 1)) + j)"
        by (simp add: add.assoc)
    qed
  qed
  have ctx_eq: "?ctx1 \<lparr> cpixels := (\<lambda>col row.
              if col < cwidth ?ctx1 \<and> row < cheight ?ctx1 \<and> xIndex + 1 < int col \<and> int col < 256
                 \<and> int row < 256
              then opaque (colorAt pathColors buffer
                     (bufferIndex + (255 - (- 1)) + 256 * (int col - (xIndex + 1) - 1) + int row + 1))
              else cpixels ?ctx1 col row) \<rparr>
        = ctx \<lparr> cpixels := (\<lambda>col row.
              if col < cwidth ctx \<and> row < cheight ctx \<and> xIndex < int col \<and> int col < 256
                 \<and> int row < 256
              then opaque (colorAt pathColors buffer
                     (bufferIndex + 256 * (int col - xIndex - 1) + int row + 1))
              else cpixels ctx col row) \<rparr>"
    using more
    by (intro canvas_eqI)
       (auto intro!: arg_cong [where f = opaque] arg_cong [where f = "colorAt pathColors buffer"])
  have "bufferIndex + (255 - (- 1)) + 256 * (255 - (xIndex + 1)) = bufferIndex + 256 * (255 - xIndex)"
    by simp
  then show ?case
    by (simp only: step IH ctx_eq)
qed


lemma renderPathOuter_fail:
  assumes "0 < j0" and "j0 \<le> 256 * (255 - xIndex)"
    and "\<not> knownAt pathPixelPalette buffer (bufferIndex + j0)"
    and "\<forall>j. 0 < j \<and> j < j0 \<longrightarrow> knownAt pathPixelPalette buffer (bufferIndex + j)"
  shows "renderPathOuter buffer xIndex bufferIndex ctx =
           Inl TypeError"
  using assms
proof (induction "nat (255 - xIndex)" arbitrary: xIndex bufferIndex ctx j0)
  case 0
  then show ?case by simp
next
  case (Suc n)
  have more: "xIndex + 1 < 256" using Suc.hyps(2) by simp
  show ?case
  proof (cases "j0 \<le> 256")
    case True
    have "renderPathInner buffer (xIndex + 1) (- 1) bufferIndex ctx =
            Inl TypeError"
    proof (rule renderPathInner_fail)
      show "- 1 < j0 - 1" using Suc.prems(1) by simp
      show "j0 - 1 < 256" using True by simp
      show "\<not> knownAt pathPixelPalette buffer (bufferIndex + ((j0 - 1) - (- 1)))"
        using Suc.prems(3) by simp
      show "\<forall>y. - 1 < y \<and> y < j0 - 1 \<longrightarrow>
              knownAt pathPixelPalette buffer (bufferIndex + (y - (- 1)))"
        using Suc.prems(4) by auto
    qed
    then have inner: "renderPathInner buffer (xIndex + 1) (- 1) bufferIndex ctx =
            Inl TypeError"
      by simp
    show ?thesis
      using more by (subst renderPathOuter.simps) (simp only: inner if_True sum.case prod.case)
  next
    case False
    obtain ctx1 where inner: "renderPathInner buffer (xIndex + 1) (- 1) bufferIndex ctx =
                 Inr (bufferIndex + (255 - (- 1)), ctx1)"
    proof -
      have "\<forall>y. - 1 < y \<and> y < 256 \<longrightarrow>
              knownAt pathPixelPalette buffer (bufferIndex + (y - (- 1)))"
        using Suc.prems(4) False by auto
      then show ?thesis
        using renderPathInner_ok [of "- 1" buffer bufferIndex "xIndex + 1" ctx] that
        by simp
    qed
    have step: "renderPathOuter buffer xIndex bufferIndex ctx =
                  renderPathOuter buffer (xIndex + 1) (bufferIndex + (255 - (- 1))) ctx1"
      using more by (subst renderPathOuter.simps) (simp only: inner if_True sum.case prod.case)
    have "renderPathOuter buffer (xIndex + 1) (bufferIndex + (255 - (- 1))) ctx1 =
           Inl TypeError"
    proof (rule Suc.hyps(1))
      show "n = nat (255 - (xIndex + 1))" using Suc.hyps(2) by simp
      show "0 < j0 - 256" using False by simp
      show "j0 - 256 \<le> 256 * (255 - (xIndex + 1))" using Suc.prems(2) by simp
      show "\<not> knownAt pathPixelPalette buffer (bufferIndex + (255 - (- 1)) + (j0 - 256))"
        using Suc.prems(3) by simp
      show "\<forall>j. 0 < j \<and> j < j0 - 256 \<longrightarrow>
              knownAt pathPixelPalette buffer (bufferIndex + (255 - (- 1)) + j)"
      proof (intro allI impI)
        fix j :: int assume "0 < j \<and> j < j0 - 256"
        then have "0 < 256 + j \<and> 256 + j < j0" by simp
        then have "knownAt pathPixelPalette buffer (bufferIndex + (256 + j))"
          using Suc.prems(4) by blast
        then show "knownAt pathPixelPalette buffer (bufferIndex + (255 - (- 1)) + j)"
          by (simp add: add.assoc)
      qed
    qed
    then show ?thesis unfolding step by simp
  qed
qed

lemma renderPath_ok:
  assumes "\<forall>i < 65536. knownAt pathPixelPalette buffer (int i)"
  shows "renderPath buffer =
           Inr \<lparr> iwidth = 256, iheight = 256,
                  idata = (\<lambda>col row. if col < 256 \<and> row < 256
                             then opaque (colorAt pathColors buffer (int (col * 256 + row)))
                             else (0, 0, 0, 0)) \<rparr>"
proof -
  let ?ctx = "(newCanvas 256 256) \<lparr> cpixels := (\<lambda>col row.
              if col < cwidth (newCanvas 256 256) \<and> row < cheight (newCanvas 256 256)
                 \<and> - 1 < int col \<and> int col < 256 \<and> int row < 256
              then opaque (colorAt pathColors buffer
                     (- 1 + 256 * (int col - (- 1) - 1) + int row + 1))
              else cpixels (newCanvas 256 256) col row) \<rparr>"
  have known: "\<forall>j. 0 < j \<and> j \<le> 256 * (255 - (- 1)) \<longrightarrow>
                 knownAt pathPixelPalette buffer (- 1 + j)"
  proof (intro allI impI)
    fix j :: int assume j: "0 < j \<and> j \<le> 256 * (255 - (- 1))"
    then have "nat (j - 1) < 65536" by auto
    then have "knownAt pathPixelPalette buffer (int (nat (j - 1)))" using assms by blast
    then show "knownAt pathPixelPalette buffer (- 1 + j)" using j by simp
  qed
  have outer: "renderPathOuter buffer (- 1) (- 1) (newCanvas 256 256) =
                 Inr (- 1 + 256 * (255 - (- 1)), ?ctx)"
    by (rule renderPathOuter_ok [OF _ known]) simp
  have img: "getImageData ?ctx 0 0 256 256 =
               \<lparr> iwidth = 256, iheight = 256,
                  idata = (\<lambda>col row. if col < 256 \<and> row < 256
                             then opaque (colorAt pathColors buffer (int (col * 256 + row)))
                             else (0, 0, 0, 0)) \<rparr>"
    by (rule imageData_eqI)
       (auto simp: getImageData_def newCanvas_def
             intro!: arg_cong [where f = opaque] arg_cong [where f = "colorAt pathColors buffer"])
  show ?thesis
    unfolding renderPath_def by (simp only: outer sum.case prod.case img)
qed

lemma renderPath_fail:
  assumes "i0 < 65536" and "\<not> knownAt pathPixelPalette buffer (int i0)"
    and "\<forall>i < i0. knownAt pathPixelPalette buffer (int i)"
  shows "renderPath buffer =
           Inl TypeError"
proof -
  have "renderPathOuter buffer (- 1) (- 1) (newCanvas 256 256) =
          Inl TypeError"
  proof (rule renderPathOuter_fail)
    show "0 < int i0 + 1" by simp
    show "int i0 + 1 \<le> 256 * (255 - (- 1))" using assms(1) by simp
    show "\<not> knownAt pathPixelPalette buffer (- 1 + (int i0 + 1))" using assms(2) by simp
    show "\<forall>j. 0 < j \<and> j < int i0 + 1 \<longrightarrow> knownAt pathPixelPalette buffer (- 1 + j)"
    proof (intro allI impI)
      fix j :: int assume j: "0 < j \<and> j < int i0 + 1"
      then have "nat (j - 1) < i0" by auto
      then have "knownAt pathPixelPalette buffer (int (nat (j - 1)))" using assms(3) by blast
      then show "knownAt pathPixelPalette buffer (- 1 + j)" using j by simp
    qed
  qed
  then have outer: "renderPathOuter buffer (- 1) (- 1) (newCanvas 256 256) =
          Inl TypeError"
    by simp
  show ?thesis
    unfolding renderPath_def by (simp only: outer sum.case prod.case)
qed
section \<open>Drawing a tile\<close>

lemma drawMapSection_rendered:
  assumes "renderMap (slice_buf (contents file) 0 0x10000) (console g) = (Inr mapImageData, con)"
    and "renderPath (slice_buf (contents file) 0x10000 0x20000) = Inr pathImageData"
  shows "drawMapSection byID file includeMarkers g =
     (let xOffset = (cx (tileCoordinates file) - xMin (bounds g)) * 256;
          yOffset = (cy (tileCoordinates file) - yMin (bounds g)) * 256;
          markerData = slice_from (contents file) 0x20000;
          g3 = g \<lparr> console := con @ (if length markerData = 0
                                     then [WarnInvalidMarkerData (fileName file),
                                           LogFixMarkerData (fileName file)]
                                     else []),
                     mapContext := putImageData mapImageData xOffset yOffset (mapContext g),
                     pathContext := putImageData pathImageData xOffset yOffset (pathContext g) \<rparr>
      in if includeMarkers
         then (case parseMarkerData byID markerData (cz (tileCoordinates file)) of
                 Inl e \<Rightarrow> (g3, Some e)
               | Inr results \<Rightarrow>
                   (if length results \<noteq> 0
                    then g3 \<lparr> markers := (markers g3)(tileID file \<mapsto> results) \<rparr>
                    else g3, None))
         else (g3, None))"
  using assms by (simp add: drawMapSection_def Let_def split: sum.split)

lemma drawMapSection_map_error:
  assumes "renderMap (slice_buf (contents file) 0 0x10000) (console g) = (Inl e, con)"
  shows "drawMapSection byID file includeMarkers g = (g \<lparr> console := con \<rparr>, Some e)"
  using assms by (simp add: drawMapSection_def Let_def)

lemma drawMapSection_path_error:
  assumes "renderMap (slice_buf (contents file) 0 0x10000) (console g) = (Inr mapImageData, con)"
    and "renderPath (slice_buf (contents file) 0x10000 0x20000) = Inl e"
  shows "drawMapSection byID file includeMarkers g =
     (g \<lparr> console := con,
          mapContext := putImageData mapImageData
             ((cx (tileCoordinates file) - xMin (bounds g)) * 256)
             ((cy (tileCoordinates file) - yMin (bounds g)) * 256) (mapContext g) \<rparr>, Some e)"
  using assms by (simp add: drawMapSection_def Let_def)

lemma parseMarkerData_empty: "parseMarkerData byID [] floor = Inl RangeError"
  by (simp add: parseMarkerData_def readUIntLE_def)

lemma parseMarkerData_zero_count:
  "readUIntLE buffer 0 4 = Inr 0 \<Longrightarrow> parseMarkerData byID buffer floor = Inr []"
  by (simp add: parseMarkerData_def)

text \<open>
  Claim C1, as the code has it. For a tile whose marker block is empty (and whose two
  layers render), \<open>drawMapSection\<close> prints the warning and the repair command; the
  decoder does not take the empty block for zero markers: reading the count raises a
  \<open>RangeError\<close>. So with the marker flag on the call ends with that error, and with the
  flag off, where the decoder is not called, it ends without error. In both cases no
  marker is recorded. A block that starts with a zero count decodes to the empty list.
\<close>

theorem empty_marker_block:
  assumes "slice_from (contents file) 0x20000 = []"
    and "renderMap (slice_buf (contents file) 0 0x10000) (console g) = (Inr mapImageData, con)"
    and "renderPath (slice_buf (contents file) 0x10000 0x20000) = Inr pathImageData"
  shows "parseMarkerData byID (slice_from (contents file) 0x20000) (cz (tileCoordinates file))
           = Inl RangeError
         \<and> snd (drawMapSection byID file True g) = Some RangeError
         \<and> snd (drawMapSection byID file False g) = None
         \<and> console (fst (drawMapSection byID file includeMarkers g)) =
             con @ [WarnInvalidMarkerData (fileName file), LogFixMarkerData (fileName file)]
         \<and> markers (fst (drawMapSection byID file includeMarkers g)) = markers g
         \<and> parseMarkerData byID ([0, 0, 0, 0] @ rest) floor = Inr []"
proof -
  have zero: "parseMarkerData byID ([0, 0, 0, 0] @ rest) floor = Inr []"
    by (rule parseMarkerData_zero_count) (simp add: readUIntLE_def)
  show ?thesis
    using assms(1) zero
    by (simp add: drawMapSection_rendered [OF assms(2,3)] Let_def parseMarkerData_empty)
qed


lemma knownAt_map_iff:
  "knownAt mapPixelPalette buffer (int i) \<longleftrightarrow>
     i < length buffer \<and> byByte (unat (buffer ! i)) \<noteq> None"
  by (simp add: knownAt_def paletteAt_def byteAt_def mapPixelPalette_lookup)

lemma knownAt_path_iff: "knownAt pathPixelPalette buffer (int i) \<longleftrightarrow> i < length buffer"
proof -
  have "unat (buffer ! i) \<le> 255"
    using unsigned_less [of "buffer ! i", where 'a = nat] by simp
  then show ?thesis
    by (simp add: knownAt_def paletteAt_def byteAt_def pathPixelPalette_lookup)
qed

lemma byByte_0: "byByte 0 = Some (0, 0, 0)"
  by (simp add: byByte_def byByte_entries_def)

lemma bareFile_map:
  "renderMap (slice_buf (contents bareFile) 0 0x10000) [] =
     (Inr \<lparr> iwidth = 256, iheight = 256,
            idata = (\<lambda>col row. if col < 256 \<and> row < 256
                       then opaque (colorAt byByte (slice_buf (contents bareFile) 0 0x10000)
                                      (int (col * 256 + row)))
                       else (0, 0, 0, 0)) \<rparr>, [])"
  by (rule renderMap_ok)
     (simp add: knownAt_map_iff bareFile_def slice_buf_def byByte_0)

lemma bareFile_path:
  "renderPath (slice_buf (contents bareFile) 0x10000 0x20000) =
     Inr \<lparr> iwidth = 256, iheight = 256,
            idata = (\<lambda>col row. if col < 256 \<and> row < 256
                       then opaque (colorAt pathColors (slice_buf (contents bareFile) 0x10000 0x20000)
                                      (int (col * 256 + row)))
                       else (0, 0, 0, 0)) \<rparr>"
  by (rule renderPath_ok)
     (simp add: knownAt_path_iff bareFile_def slice_buf_def)

theorem empty_marker_block_witness:
  "slice_from (contents bareFile) 0x20000 = []
   \<and> snd (drawMapSection exampleIcons bareFile True oneTileGlobals) = Some RangeError
   \<and> snd (drawMapSection exampleIcons bareFile False oneTileGlobals) = None
   \<and> console (fst (drawMapSection exampleIcons bareFile True oneTileGlobals)) =
       [WarnInvalidMarkerData ''Automap/12712113.map'', LogFixMarkerData ''Automap/12712113.map'']"
proof -
  have e: "slice_from (contents bareFile) 0x20000 = []"
    by (simp add: bareFile_def slice_from_def)
  have m: "renderMap (slice_buf (contents bareFile) 0 0x10000) (console oneTileGlobals) =
     (Inr \<lparr> iwidth = 256, iheight = 256,
            idata = (\<lambda>col row. if col < 256 \<and> row < 256
                       then opaque (colorAt byByte (slice_buf (contents bareFile) 0 0x10000)
                                      (int (col * 256 + row)))
                       else (0, 0, 0, 0)) \<rparr>, [])"
    using bareFile_map by (simp add: oneTileGlobals_def)
  have name: "fileName bareFile = ''Automap/12712113.map''"
    by (simp add: bareFile_def)
  from empty_marker_block [OF e m bareFile_path, of exampleIcons True] 
    empty_marker_block [OF e m bareFile_path, of exampleIcons False] e name
  show ?thesis by simp
qed

theorem empty_marker_block_counterexample:
  "parseMarkerData exampleIcons (slice_from (contents bareFile) 0x20000) 13 \<noteq> Inr []
   \<and> snd (drawMapSection exampleIcons bareFile True oneTileGlobals) = Some RangeError"
proof -
  have e: "slice_from (contents bareFile) 0x20000 = []"
    by (simp add: bareFile_def slice_from_def)
  have m: "renderMap (slice_buf (contents bareFile) 0 0x10000) (console oneTileGlobals) =
     (Inr \<lparr> iwidth = 256, iheight = 256,
            idata = (\<lambda>col row. if col < 256 \<and> row < 256
                       then opaque (colorAt byByte (slice_buf (contents bareFile) 0 0x10000)
                                      (int (col * 256 + row)))
                       else (0, 0, 0, 0)) \<rparr>, [])"
    using bareFile_map by (simp add: oneTileGlobals_def)
  show ?thesis
    by (simp add: drawMapSection_rendered [OF m bareFile_path] Let_def e parseMarkerData_empty)
qed

subsection \<open>A tile whose marker block cannot be decoded\<close>

lemma drawMapSection_marker_error:
  assumes "parseMarkerData byID (slice_from (contents file) 0x20000) (cz (tileCoordinates file))
             = Inl e"
  shows "snd (drawMapSection byID file True g) \<noteq> None
         \<and> markers (fst (drawMapSection byID file True g)) = markers g"
proof (cases "renderMap (slice_buf (contents file) 0 0x10000) (console g)")
  case (Pair res con)
  show ?thesis
  proof (cases res)
    case (Inl e1)
    then show ?thesis using Pair by (simp add: drawMapSection_map_error)
  next
    case (Inr mapImageData)
    note m = Pair [unfolded Inr]
    show ?thesis
    proof (cases "renderPath (slice_buf (contents file) 0x10000 0x20000)")
      case (Inl e2)
      then show ?thesis using m by (simp add: drawMapSection_path_error)
    next
      case (Inr pathImageData)
      then show ?thesis
        using m assms by (simp add: drawMapSection_rendered Let_def)
    qed
  qed
qed

lemma sequentialUntilError_error:
  assumes "x \<in> set xs" and "\<And>s. snd (f x s) \<noteq> None"
  shows "snd (sequentialUntilError f xs s) \<noteq> None"
  using assms(1)
proof (induction xs arbitrary: s)
  case Nil
  then show ?case by simp
next
  case (Cons a xs)
  obtain s' r where fa: "f a s = (s', r)" by (cases "f a s")
  show ?case
  proof (cases r)
    case (Some e)
    then show ?thesis using fa by simp
  next
    case None
    then have "a \<noteq> x" using fa assms(2) [of s] by auto
    then have "x \<in> set xs" using Cons.prems by simp
    then have "snd (sequentialUntilError f xs s') \<noteq> None" by (rule Cons.IH)
    then show ?thesis using fa None by simp
  qed
qed

lemma renderFloor_error:
  assumes "file \<in> set files"
    and "\<And>s. snd (drawMapSection byID file includeMarkers s) \<noteq> None"
  shows "isl (snd (renderFloor sequentialUntilError byID floorID files includeMarkers g))"
proof -
  let ?g0 = "g \<lparr> console := console g @ [LogRenderingFloor floorID],
                  mapContext := resetContext (mapContext g) unexploredMap (bounds g),
                  pathContext := resetContext (pathContext g) unexploredPath (bounds g),
                  markers := Map.empty \<rparr>"
  have "snd (sequentialUntilError (\<lambda>file. drawMapSection byID file includeMarkers) files ?g0)
          \<noteq> None"
    using assms by (intro sequentialUntilError_error [where x = "file"]) auto
  then show ?thesis
    by (auto simp: renderFloor_def Let_def split: prod.splits option.splits)
qed

text \<open>
  Claim C8, as the code has it. For a marker block in the layout that is cut after
  \<open>n\<close> bytes, decoding raises a \<open>RangeError\<close> (and returns no list) exactly when the block
  ends before the fourteen fixed bytes of one of the records of its count are complete,
  which is when it is cut anywhere before the text of its last record. A block that
  ends inside the text of its last record (or is whole) is decoded without error: the
  result is the sorted list without duplicates of the markers of all its records, the
  last one with only the bytes of its text that the buffer has. Nothing catches the
  \<open>RangeError\<close> for the tile: \<open>drawMapSection\<close> ends with an error and records no markers.
  If a call that raises ends the sequence of the floor (\<open>sequentialUntilError\<close>), the run
  of a floor that has the tile ends with an error too, without output.
\<close>

theorem truncated_marker_block:
  assumes "length recs < 2 ^ 32"
    and "\<forall>r \<in> set recs. length (rec_text r) < 2 ^ 16"
  shows "(parseMarkerData byID (take n (markerBlock recs)) floor = Inl RangeError)
           = (n < length (markerBlock recs)
                    - (if recs = [] then 0 else length (rec_text (last recs))))
         \<and> ((\<forall>r \<in> set recs. rec_imageID r < 2 ^ 32)
              \<and> length (markerBlock recs)
                    - (if recs = [] then 0 else length (rec_text (last recs))) \<le> n \<longrightarrow>
                parseMarkerData byID (take n (markerBlock recs)) floor =
                  Inr (filterUnique {} (sortMarkers
                    (map (\<lambda>r. \<lparr> m_description = windows1252_decode (rec_text r),
                                    m_icon = byID (rec_imageID r),
                                    m_x = unat (rec_xTile r) * 256 + unat (rec_xOffset r),
                                    m_y = unat (rec_yTile r) * 256 + unat (rec_yOffset r),
                                    m_z = floor \<rparr>)
                       (cutLastText
                          (n - (length (markerBlock recs)
                                 - (if recs = [] then 0 else length (rec_text (last recs)))))
                          recs)))))
         \<and> (n < length (markerBlock recs)
                    - (if recs = [] then 0 else length (rec_text (last recs)))
              \<and> slice_from (contents file) 0x20000 = take n (markerBlock recs) \<longrightarrow>
                snd (drawMapSection byID file True g) \<noteq> None
                \<and> markers (fst (drawMapSection byID file True g)) = markers g)
         \<and> (handleSequence = sequentialUntilError
              \<and> n < length (markerBlock recs)
                    - (if recs = [] then 0 else length (rec_text (last recs)))
              \<and> slice_from (contents file) 0x20000 = take n (markerBlock recs)
              \<and> file \<in> set files \<longrightarrow>
                isl (snd (renderFloor handleSequence byID floorID files True g)))"
proof -
  let ?early = "n < length (markerBlock recs)
                      - (if recs = [] then 0 else length (rec_text (last recs)))"
  have mo: "(\<lambda>r. \<lparr> m_description = windows1252_decode (rec_text r),
                               m_icon = byID (rec_imageID r),
                               m_x = unat (rec_xTile r) * 256 + unat (rec_xOffset r),
                               m_y = unat (rec_yTile r) * 256 + unat (rec_yOffset r),
                               m_z = floor \<rparr>) = markerOf byID floor"
    by (simp add: markerOf_def fun_eq_iff)
  have parse: "\<And>floor. ?early \<Longrightarrow>
                 parseMarkerData byID (take n (markerBlock recs)) floor = Inl RangeError"
    using assms by (rule parseMarkerData_truncated)
  have late: "\<not> ?early \<Longrightarrow>
                parseMarkerData byID (take n (markerBlock recs)) floor \<noteq> Inl RangeError"
    using parseMarkerData_cut_late [OF assms, of n byID floor] by auto
  have iff: "(parseMarkerData byID (take n (markerBlock recs)) floor = Inl RangeError) = ?early"
    using parse late by blast
  have decoded: "(\<forall>r \<in> set recs. rec_imageID r < 2 ^ 32) \<and> \<not> ?early \<Longrightarrow>
                parseMarkerData byID (take n (markerBlock recs)) floor =
                  Inr (filterUnique {} (sortMarkers
                    (map (markerOf byID floor)
                       (cutLastText
                          (n - (length (markerBlock recs)
                                 - (if recs = [] then 0 else length (rec_text (last recs)))))
                          recs))))"
    using assms by (intro parseMarkerData_cut_text) auto
  have draw: "\<And>s. ?early \<Longrightarrow>
                 slice_from (contents file) 0x20000 = take n (markerBlock recs) \<Longrightarrow>
                   snd (drawMapSection byID file True s) \<noteq> None
                   \<and> markers (fst (drawMapSection byID file True s)) = markers s"
    using parse by (intro drawMapSection_marker_error) simp
  have run: "?early \<Longrightarrow> slice_from (contents file) 0x20000 = take n (markerBlock recs) \<Longrightarrow>
               file \<in> set files \<Longrightarrow>
                 isl (snd (renderFloor sequentialUntilError byID floorID files True g))"
    using draw by (intro renderFloor_error) auto
  show ?thesis
    unfolding mo using iff decoded draw run by (simp add: not_less)
qed

lemma plain_layers:
  assumes "contents file = replicate 0x10000 0 @ replicate 0x10000 0xFA @ rest"
  shows "\<exists>mapImageData. renderMap (slice_buf (contents file) 0 0x10000) con = (Inr mapImageData, con)"
    and "\<exists>pathImageData. renderPath (slice_buf (contents file) 0x10000 0x20000) = Inr pathImageData"
proof -
  have "\<forall>i < 65536. knownAt mapPixelPalette (slice_buf (contents file) 0 0x10000) (int i)"
    by (simp add: knownAt_map_iff assms slice_buf_def byByte_0)
  then show "\<exists>mapImageData. renderMap (slice_buf (contents file) 0 0x10000) con = (Inr mapImageData, con)"
    using renderMap_ok by blast
  have "\<forall>i < 65536. knownAt pathPixelPalette (slice_buf (contents file) 0x10000 0x20000) (int i)"
    by (simp add: knownAt_path_iff assms slice_buf_def)
  then show "\<exists>pathImageData. renderPath (slice_buf (contents file) 0x10000 0x20000) = Inr pathImageData"
    using renderPath_ok by blast
qed

lemma duplicateRecords_cut:
  "filterUnique {} (sortMarkers
     (map (\<lambda>r. \<lparr> m_description = windows1252_decode (rec_text r),
                     m_icon = exampleIcons (rec_imageID r),
                     m_x = unat (rec_xTile r) * 256 + unat (rec_xOffset r),
                     m_y = unat (rec_yTile r) * 256 + unat (rec_yOffset r),
                     m_z = 7 \<rparr>)
        (cutLastText 1 duplicateRecords)))
   = [markerPlain, markerAb,
      \<lparr> m_description = [0x61], m_icon = JString (ascii ''star''),
        m_x = 261, m_y = 518, m_z = 7 \<rparr>]"
  by (simp add: cutLastText_def duplicateRecords_def markerAb_def markerPlain_def exampleIcons_def
        windows1252_decode_def windows1252_char_def marker_eval)

theorem truncated_marker_block_witness:
  "parseMarkerData exampleIcons (take 30 (markerBlock duplicateRecords)) 7 = Inl RangeError
   \<and> parseMarkerData exampleIcons (take 49 (markerBlock duplicateRecords)) 7 =
       Inr [markerPlain, markerAb,
            \<lparr> m_description = [0x61], m_icon = JString (ascii ''star''),
              m_x = 261, m_y = 518, m_z = 7 \<rparr>]
   \<and> length (markerBlock duplicateRecords) = 50
   \<and> snd (drawMapSection exampleIcons cutFile True oneTileGlobals) \<noteq> None
   \<and> markers (fst (drawMapSection exampleIcons cutFile True oneTileGlobals)) = Map.empty
   \<and> isl (snd (renderFloor sequentialUntilError exampleIcons ''13'' [cutFile] True
               oneTileGlobals))"
proof -
  have len: "length (markerBlock duplicateRecords) = 50"
    by (simp add: length_markerBlock length_recordBytes duplicateRecords_def)
  have last: "(if duplicateRecords = [] then 0 else length (rec_text (last duplicateRecords))) = 2"
    by (simp add: duplicateRecords_def)
  have k: "49 - (50 - 2) = (1::nat)" by simp
  have block: "slice_from (contents cutFile) 0x20000 = take 30 (markerBlock duplicateRecords)"
    by (simp add: cutFile_def slice_from_def)
  have wf: "\<forall>r \<in> set duplicateRecords. length (rec_text r) < 2 ^ 16"
    using duplicateRecords_wf(2) by simp
  have ids: "\<forall>r \<in> set duplicateRecords. rec_imageID r < 2 ^ 32"
    using duplicateRecords_wf(2) by simp
  have none: "markers oneTileGlobals = Map.empty"
    by (simp add: oneTileGlobals_def)
  from truncated_marker_block [OF duplicateRecords_wf(1) wf, of exampleIcons 30 7 cutFile
        oneTileGlobals sequentialUntilError "[cutFile]" "''13''"]
    truncated_marker_block [OF duplicateRecords_wf(1) wf, of exampleIcons 49 7 cutFile
        oneTileGlobals sequentialUntilError "[cutFile]" "''13''"]
  show ?thesis
    unfolding len last k duplicateRecords_cut using block none ids by simp
qed

theorem truncated_marker_block_counterexample:
  "readUIntLE cutTextBlock 0 4 = Inr 1
   \<and> readUIntLE cutTextBlock 16 2 = Inr 5
   \<and> length cutTextBlock = 20
   \<and> parseMarkerData exampleIcons cutTextBlock 7 =
       Inr [\<lparr> m_description = [0x41, 0x42], m_icon = JString (ascii ''star''),
              m_x = 10, m_y = 20, m_z = 7 \<rparr>]"
  by (simp add: cutTextBlock_def marker_eval)

subsection \<open>The marker flag\<close>

lemma drawMapSection_flag_frame:
  assumes "sameRasters g g'"
  shows "sameRasters (fst (drawMapSection byID file True g)) (fst (drawMapSection byID file False g'))
         \<and> (snd (drawMapSection byID file True g) = None \<longrightarrow>
              snd (drawMapSection byID file False g') = None)
         \<and> markers (fst (drawMapSection byID file False g')) = markers g'"
proof -
  from assms have eq: "bounds g' = bounds g" "mapContext g' = mapContext g"
      "pathContext g' = pathContext g" "console g' = console g"
    by (simp_all add: sameRasters_def)
  show ?thesis
  proof (cases "renderMap (slice_buf (contents file) 0 0x10000) (console g)")
    case (Pair res con)
    show ?thesis
    proof (cases res)
      case (Inl e1)
      then show ?thesis
        using Pair eq by (simp add: drawMapSection_map_error sameRasters_def)
    next
      case (Inr mapImageData)
      note m = Pair [unfolded Inr]
      have m': "renderMap (slice_buf (contents file) 0 0x10000) (console g') = (Inr mapImageData, con)"
        using m eq by simp
      show ?thesis
      proof (cases "renderPath (slice_buf (contents file) 0x10000 0x20000)")
        case (Inl e2)
        then show ?thesis
          using eq by (simp add: drawMapSection_path_error [OF m] drawMapSection_path_error [OF m']
                sameRasters_def)
      next
        case (Inr pathImageData)
        then show ?thesis
          using eq
          by (simp add: drawMapSection_rendered [OF m] drawMapSection_rendered [OF m']
                sameRasters_def Let_def split: sum.split)
      qed
    qed
  qed
qed

lemma sequentialUntilError_flag_frame:
  assumes "sameRasters g g'"
    and "sequentialUntilError (\<lambda>file. drawMapSection byID file True) files g = (gT, None)"
  shows "\<exists>gF. sequentialUntilError (\<lambda>file. drawMapSection byID file False) files g' = (gF, None)
              \<and> sameRasters gT gF \<and> markers gF = markers g'"
  using assms
proof (induction files arbitrary: g g')
  case Nil
  then show ?case by simp
next
  case (Cons a files)
  obtain g1 r1 where on: "drawMapSection byID a True g = (g1, r1)"
    by (cases "drawMapSection byID a True g")
  obtain g1' r1' where off: "drawMapSection byID a False g' = (g1', r1')"
    by (cases "drawMapSection byID a False g'")
  have r1: "r1 = None"
    using Cons.prems(2) on by (cases r1) simp_all
  have frame: "sameRasters g1 g1'" "r1' = None" "markers g1' = markers g'"
    using drawMapSection_flag_frame [OF Cons.prems(1), of byID a] on off r1 by simp_all
  have "sequentialUntilError (\<lambda>file. drawMapSection byID file True) files g1 = (gT, None)"
    using Cons.prems(2) on r1 by simp
  from Cons.IH [OF frame(1) this]
  obtain gF where "sequentialUntilError (\<lambda>file. drawMapSection byID file False) files g1' = (gF, None)"
    and "sameRasters gT gF" and "markers gF = markers g1'"
    by blast
  then show ?case using off frame by simp
qed

lemma sameRasters_refl: "sameRasters g g"
  by (simp add: sameRasters_def)

lemma sequentialUntilError_flag_off_markers:
  "markers (fst (sequentialUntilError (\<lambda>file. drawMapSection byID file False) files g)) = markers g"
proof (induction files arbitrary: g)
  case Nil
  then show ?case by simp
next
  case (Cons a files)
  obtain g1 r1 where off: "drawMapSection byID a False g = (g1, r1)"
    by (cases "drawMapSection byID a False g")
  have keep: "markers g1 = markers g"
    using drawMapSection_flag_frame [OF sameRasters_refl, of byID a g] off by simp
  show ?case
  proof (cases r1)
    case None
    then show ?thesis using off keep Cons.IH [of g1] by simp
  next
    case (Some e)
    then show ?thesis using off keep by simp
  qed
qed

lemma slice_buf_take:
  "e \<le> k \<Longrightarrow> slice_buf (take k b) s e = slice_buf b s e"
  by (simp add: slice_buf_def drop_take)

lemma drawMapSection_flag_off:
  assumes "fileName file' = fileName file" and "tileID file' = tileID file"
    and "tileCoordinates file' = tileCoordinates file"
    and "take 0x20000 (contents file') = take 0x20000 (contents file)"
    and "(length (contents file') \<le> 0x20000) = (length (contents file) \<le> 0x20000)"
  shows "drawMapSection byID' file' False g = drawMapSection byID file False g"
proof -
  have "slice_buf (contents file') 0 0x10000 = slice_buf (take 0x20000 (contents file')) 0 0x10000"
    by (simp add: slice_buf_take)
  then have vis: "slice_buf (contents file') 0 0x10000 = slice_buf (contents file) 0 0x10000"
    by (simp add: assms(4) slice_buf_take)
  have "slice_buf (contents file') 0x10000 0x20000
          = slice_buf (take 0x20000 (contents file')) 0x10000 0x20000"
    by (simp add: slice_buf_take)
  then have path: "slice_buf (contents file') 0x10000 0x20000 = slice_buf (contents file) 0x10000 0x20000"
    by (simp add: assms(4) slice_buf_take)
  have none: "(length (slice_from (contents file') 0x20000) = 0)
              = (length (slice_from (contents file) 0x20000) = 0)"
    using assms(5) by (simp add: slice_from_def)
  show ?thesis
    unfolding drawMapSection_def Let_def vis path none assms(1-3)
    by (simp split: prod.split sum.split)
qed

text \<open>
  Claim C9, as the code has it. With the marker flag off no marker is decoded: what
  \<open>drawMapSection\<close> does depends on the file only through its name, its coordinates, its
  first 0x20000 bytes and on whether any byte follows them, and not on the table of
  icons. After any one tile the rasters and the console are the same with the flag on
  and off, whether the call raised or not. For every set of files, every state and
  every helper \<open>handleSequence\<close>, the marker output of a floor whose run with the flag
  off hands over its output is empty. If a call that raises ends the sequence of the
  floor (\<open>sequentialUntilError\<close>), then with the flag off no marker is recorded in the
  state either, whether the run completes or not, and whenever the run with the flag on
  completes, the run with the flag off over the same files and state completes too,
  with the same two rasters and the same console. (A marker block on which the decoder
  raises ends the run with the flag on only.)
\<close>

theorem marker_flag_frame:
  "(\<forall>byID' file file'.
       fileName file' = fileName file \<and> tileID file' = tileID file
       \<and> tileCoordinates file' = tileCoordinates file
       \<and> take 0x20000 (contents file') = take 0x20000 (contents file)
       \<and> (length (contents file') \<le> 0x20000) = (length (contents file) \<le> 0x20000)
       \<longrightarrow> drawMapSection byID' file' False g = drawMapSection byID file False g)
   \<and> (\<forall>file. sameRasters (fst (drawMapSection byID file True g))
                         (fst (drawMapSection byID file False g)))
   \<and> (\<forall>gF outF. renderFloor handleSequence byID floorID files False g = (gF, Inr outF)
         \<longrightarrow> markersJSON outF = Map.empty)
   \<and> (handleSequence = sequentialUntilError \<longrightarrow>
         markers (fst (renderFloor handleSequence byID floorID files False g)) = Map.empty)
   \<and> (handleSequence = sequentialUntilError \<longrightarrow>
         (\<forall>gT outT. renderFloor handleSequence byID floorID files True g = (gT, Inr outT) \<longrightarrow>
            (\<exists>gF outF. renderFloor handleSequence byID floorID files False g = (gF, Inr outF)
               \<and> mapPNG outF = mapPNG outT \<and> pathPNG outF = pathPNG outT
               \<and> console gF = console gT)))"
proof -
  define g0 where "g0 = g \<lparr> console := console g @ [LogRenderingFloor floorID],
                  mapContext := resetContext (mapContext g) unexploredMap (bounds g),
                  pathContext := resetContext (pathContext g) unexploredPath (bounds g),
                  markers := Map.empty \<rparr>"
  have tiles: "\<forall>file. sameRasters (fst (drawMapSection byID file True g))
                               (fst (drawMapSection byID file False g))"
    using drawMapSection_flag_frame [OF sameRasters_refl] by blast
  have handed: "\<forall>gF outF. renderFloor handleSequence byID floorID files False g = (gF, Inr outF)
         \<longrightarrow> markersJSON outF = Map.empty"
    by (auto simp: renderFloor_def Let_def split: prod.splits option.splits)
  have state: "markers (fst (renderFloor sequentialUntilError byID floorID files False g)) = Map.empty"
  proof -
    have "markers (fst (sequentialUntilError (\<lambda>file. drawMapSection byID file False) files g0))
            = markers g0"
      by (rule sequentialUntilError_flag_off_markers)
    moreover have "markers g0 = Map.empty" by (simp add: g0_def)
    ultimately show ?thesis
      by (auto simp: renderFloor_def g0_def [symmetric] Let_def
            split: prod.splits option.splits)
  qed
  have runs: "\<exists>gF outF. renderFloor sequentialUntilError byID floorID files False g = (gF, Inr outF)
               \<and> mapPNG outF = mapPNG outT \<and> pathPNG outF = pathPNG outT
               \<and> console gF = console gT"
    if run: "renderFloor sequentialUntilError byID floorID files True g = (gT, Inr outT)"
    for gT outT
  proof -
    obtain g1 r
      where on: "sequentialUntilError (\<lambda>file. drawMapSection byID file True) files g0 = (g1, r)"
      by (cases "sequentialUntilError (\<lambda>file. drawMapSection byID file True) files g0")
    have r: "r = None" and gT: "gT = g1"
      and outT: "outT = \<lparr> mapPNG = mapContext g1, pathPNG = pathContext g1,
                            markersJSON = markers g1 \<rparr>"
      using run on by (cases r; simp add: renderFloor_def g0_def [symmetric] Let_def)+
    from sequentialUntilError_flag_frame [OF sameRasters_refl on [unfolded r]]
    obtain gF
      where off: "sequentialUntilError (\<lambda>file. drawMapSection byID file False) files g0 = (gF, None)"
        and same: "sameRasters g1 gF"
      by blast
    have "renderFloor sequentialUntilError byID floorID files False g =
            (gF, Inr \<lparr> mapPNG = mapContext gF, pathPNG = pathContext gF,
                        markersJSON = Map.empty \<rparr>)"
      using off by (simp add: renderFloor_def g0_def [symmetric] Let_def)
    then show ?thesis
      using same gT outT by (simp add: sameRasters_def)
  qed
  show ?thesis
    using tiles handed state runs drawMapSection_flag_off by blast
qed

lemma renderFloor_bareFile:
  "snd (drawMapSection exampleIcons bareFile True oneTileGlobals) = Some RangeError"
  "snd (drawMapSection exampleIcons bareFile False oneTileGlobals) = None"
  "snd (renderFloor sequentialUntilError exampleIcons ''13'' [bareFile] True oneTileGlobals)
     = Inl RangeError"
  "\<not> isl (snd (renderFloor sequentialUntilError exampleIcons ''13'' [bareFile] False
                 oneTileGlobals))"
proof -
  have c: "contents bareFile = replicate 0x10000 0 @ replicate 0x10000 0xFA @ []"
    by (simp add: bareFile_def)
  obtain mapImageData pathImageData
    where m: "renderMap (slice_buf (contents bareFile) 0 0x10000) [LogRenderingFloor ''13'']
                = (Inr mapImageData, [LogRenderingFloor ''13''])"
      and p: "renderPath (slice_buf (contents bareFile) 0x10000 0x20000) = Inr pathImageData"
    using plain_layers [OF c] by blast
  obtain mapImageData' where m': "renderMap (slice_buf (contents bareFile) 0 0x10000) []
                = (Inr mapImageData', [])"
    using plain_layers(1) [OF c] by blast
  have e: "slice_from (contents bareFile) 0x20000 = []"
    by (simp add: bareFile_def slice_from_def)
  show "snd (drawMapSection exampleIcons bareFile True oneTileGlobals) = Some RangeError"
    by (simp add: oneTileGlobals_def Let_def drawMapSection_rendered [OF _ p] m' e
          parseMarkerData_empty)
  show "snd (drawMapSection exampleIcons bareFile False oneTileGlobals) = None"
    by (simp add: oneTileGlobals_def Let_def drawMapSection_rendered [OF _ p] m' e)
  show "snd (renderFloor sequentialUntilError exampleIcons ''13'' [bareFile] True oneTileGlobals)
          = Inl RangeError"
    by (simp add: renderFloor_def oneTileGlobals_def Let_def drawMapSection_rendered [OF _ p] m e
          parseMarkerData_empty)
  show "\<not> isl (snd (renderFloor sequentialUntilError exampleIcons ''13'' [bareFile] False
                   oneTileGlobals))"
    by (simp add: renderFloor_def oneTileGlobals_def Let_def drawMapSection_rendered [OF _ p] m e)
qed

theorem marker_flag_frame_counterexample:
  "snd (drawMapSection exampleIcons bareFile True oneTileGlobals) = Some RangeError
   \<and> snd (drawMapSection exampleIcons bareFile False oneTileGlobals) = None
   \<and> snd (renderFloor sequentialUntilError exampleIcons ''13'' [bareFile] True oneTileGlobals)
       = Inl RangeError
   \<and> \<not> isl (snd (renderFloor sequentialUntilError exampleIcons ''13'' [bareFile] False
                   oneTileGlobals))"
  using renderFloor_bareFile by simp

lemma renderFloor_markedFile:
  "\<exists>gT outT. renderFloor sequentialUntilError exampleIcons ''13'' [markedFile] True oneTileGlobals
                 = (gT, Inr outT)
      \<and> markersJSON outT ''12712113'' =
          Some [\<lparr> m_description = [], m_icon = JString (ascii ''checkmark''),
                   m_x = 5, m_y = 5, m_z = 13 \<rparr>,
                 \<lparr> m_description = [], m_icon = JString (ascii ''star''),
                   m_x = 10, m_y = 10, m_z = 13 \<rparr>,
                 \<lparr> m_description = [0x41], m_icon = JString (ascii ''star''),
                   m_x = 10, m_y = 20, m_z = 13 \<rparr>]"
proof -
  have c: "contents markedFile = replicate 0x10000 0 @ replicate 0x10000 0xFA @ orderingBlock"
    by (simp add: markedFile_def)
  obtain mapImageData pathImageData
    where m: "renderMap (slice_buf (contents markedFile) 0 0x10000) [LogRenderingFloor ''13'']
                = (Inr mapImageData, [LogRenderingFloor ''13''])"
      and p: "renderPath (slice_buf (contents markedFile) 0x10000 0x20000) = Inr pathImageData"
    using plain_layers [OF c] by blast
  have e: "slice_from (contents markedFile) 0x20000 = orderingBlock"
    by (simp add: markedFile_def slice_from_def)
  have len: "length orderingBlock \<noteq> 0"
    by (simp add: orderingBlock_def)
  have f: "cz (tileCoordinates markedFile) = 13" "tileID markedFile = ''12712113''"
    by (simp_all add: markedFile_def)
  show ?thesis
    by (simp add: renderFloor_def oneTileGlobals_def Let_def drawMapSection_rendered [OF _ p] m e
          len f orderingBlock_decodes)
qed

theorem marker_flag_frame_witness:
  "drawMapSection (\<lambda>n. JUndefined) (markedFile \<lparr> contents := take 0x20000 (contents markedFile) @ [1] \<rparr>)
       False oneTileGlobals
     = drawMapSection exampleIcons markedFile False oneTileGlobals
   \<and> sameRasters (fst (drawMapSection exampleIcons markedFile True oneTileGlobals))
                  (fst (drawMapSection exampleIcons markedFile False oneTileGlobals))
   \<and> markers (fst (renderFloor sequentialUntilError exampleIcons ''13'' [markedFile] False
                     oneTileGlobals)) = Map.empty
   \<and> (\<exists>gT outT gF outF.
        renderFloor sequentialUntilError exampleIcons ''13'' [markedFile] True oneTileGlobals
          = (gT, Inr outT)
        \<and> renderFloor sequentialUntilError exampleIcons ''13'' [markedFile] False oneTileGlobals
          = (gF, Inr outF)
        \<and> mapPNG outF = mapPNG outT \<and> pathPNG outF = pathPNG outT
        \<and> console gF = console gT
        \<and> markersJSON outF = Map.empty
        \<and> markersJSON outT ''12712113'' =
            Some [\<lparr> m_description = [], m_icon = JString (ascii ''checkmark''),
                     m_x = 5, m_y = 5, m_z = 13 \<rparr>,
                   \<lparr> m_description = [], m_icon = JString (ascii ''star''),
                     m_x = 10, m_y = 10, m_z = 13 \<rparr>,
                   \<lparr> m_description = [0x41], m_icon = JString (ascii ''star''),
                     m_x = 10, m_y = 20, m_z = 13 \<rparr>])"
proof -
  note frame = marker_flag_frame [of oneTileGlobals exampleIcons sequentialUntilError "''13''"
      "[markedFile]"]
  have same: "take 0x20000 (contents (markedFile \<lparr> contents := take 0x20000 (contents markedFile) @ [1] \<rparr>))
                = take 0x20000 (contents markedFile)"
    and more: "(length (contents (markedFile \<lparr> contents := take 0x20000 (contents markedFile) @ [1] \<rparr>))
                  \<le> 0x20000) = (length (contents markedFile) \<le> 0x20000)"
    by (simp_all add: markedFile_def orderingBlock_def)
  from frame same more
  have tile: "drawMapSection (\<lambda>n. JUndefined)
                (markedFile \<lparr> contents := take 0x20000 (contents markedFile) @ [1] \<rparr>)
                False oneTileGlobals
              = drawMapSection exampleIcons markedFile False oneTileGlobals"
    by simp
  from frame
  have rasters: "sameRasters (fst (drawMapSection exampleIcons markedFile True oneTileGlobals))
                  (fst (drawMapSection exampleIcons markedFile False oneTileGlobals))"
    by blast
  from frame
  have state: "markers (fst (renderFloor sequentialUntilError exampleIcons ''13'' [markedFile] False
                     oneTileGlobals)) = Map.empty"
    by blast
  from renderFloor_markedFile obtain gT outT
    where on: "renderFloor sequentialUntilError exampleIcons ''13'' [markedFile] True oneTileGlobals
                 = (gT, Inr outT)"
      and ms: "markersJSON outT ''12712113'' =
          Some [\<lparr> m_description = [], m_icon = JString (ascii ''checkmark''),
                   m_x = 5, m_y = 5, m_z = 13 \<rparr>,
                 \<lparr> m_description = [], m_icon = JString (ascii ''star''),
                   m_x = 10, m_y = 10, m_z = 13 \<rparr>,
                 \<lparr> m_description = [0x41], m_icon = JString (ascii ''star''),
                   m_x = 10, m_y = 20, m_z = 13 \<rparr>]"
    by blast
  from frame on obtain gF outF
    where off: "renderFloor sequentialUntilError exampleIcons ''13'' [markedFile] False oneTileGlobals
                  = (gF, Inr outF)"
      and "mapPNG outF = mapPNG outT" and "pathPNG outF = pathPNG outT"
      and "console gF = console gT"
    by blast
  moreover from frame off have "markersJSON outF = Map.empty"
    by blast
  ultimately show ?thesis
    using tile rasters state on ms by blast
qed
subsection \<open>The visual layer on the floor raster\<close>

lemma mapContext_drawn:
  assumes "renderMap (slice_buf (contents file) 0 0x10000) (console g) = (Inr mapImageData, con)"
  shows "mapContext (fst (drawMapSection byID file includeMarkers g)) =
           putImageData mapImageData
             ((cx (tileCoordinates file) - xMin (bounds g)) * 256)
             ((cy (tileCoordinates file) - yMin (bounds g)) * 256) (mapContext g)"
proof (cases "renderPath (slice_buf (contents file) 0x10000 0x20000)")
  case (Inl e)
  then show ?thesis using assms by (simp add: drawMapSection_path_error)
next
  case (Inr pathImageData)
  then show ?thesis
    using assms by (simp add: drawMapSection_rendered Let_def split: sum.split)
qed

lemma visual_layer_known:
  assumes "\<forall>i < 65536. i < length (contents file) \<and> byByte (unat (contents file ! i)) \<noteq> None"
  shows "\<forall>i < 65536. knownAt mapPixelPalette (slice_buf (contents file) 0 0x10000) (int i)"
  using assms by (simp add: knownAt_map_iff slice_buf_def)

lemma visual_pixel:
  assumes known: "\<forall>i < 65536. i < length (contents file)
                     \<and> byByte (unat (contents file ! i)) \<noteq> None"
    and i: "i < 65536"
    and col: "int col = (cx (tileCoordinates file) - xMin (bounds g)) * 256 + int (i div 256)"
    and row: "int row = (cy (tileCoordinates file) - yMin (bounds g)) * 256 + int (i mod 256)"
    and inside: "col < cwidth (mapContext g)" "row < cheight (mapContext g)"
  shows "cpixels (mapContext (fst (drawMapSection byID file includeMarkers g))) col row =
           opaque (the (byByte (unat (contents file ! i))))"
proof -
  define mapData where "mapData = slice_buf (contents file) 0 0x10000"
  define xOffset where "xOffset = (cx (tileCoordinates file) - xMin (bounds g)) * 256"
  define yOffset where "yOffset = (cy (tileCoordinates file) - yMin (bounds g)) * 256"
  let ?img = "\<lparr> iwidth = 256, iheight = 256,
                 idata = (\<lambda>col row. if col < 256 \<and> row < 256
                            then opaque (colorAt byByte mapData (int (col * 256 + row)))
                            else (0, 0, 0, 0)) \<rparr>"
  have "renderMap mapData (console g) = (Inr ?img, console g)"
    unfolding mapData_def by (rule renderMap_ok) (rule visual_layer_known [OF known])
  then have ctx: "mapContext (fst (drawMapSection byID file includeMarkers g)) =
                    putImageData ?img xOffset yOffset (mapContext g)"
    unfolding mapData_def xOffset_def yOffset_def by (rule mapContext_drawn)
  have c: "nat (int col - xOffset) = i div 256" and r: "nat (int row - yOffset) = i mod 256"
    using col row by (simp_all add: xOffset_def yOffset_def)
  have range: "xOffset \<le> int col" "int col < xOffset + 256" "yOffset \<le> int row"
      "int row < yOffset + 256"
    using col row i by (simp_all add: xOffset_def yOffset_def less_mult_imp_div_less)
  have "cpixels (putImageData ?img xOffset yOffset (mapContext g)) col row =
          idata ?img (nat (int col - xOffset)) (nat (int row - yOffset))"
    using inside range by (simp add: putImageData_def)
  also have "\<dots> = opaque (colorAt byByte mapData (int (i div 256 * 256 + i mod 256)))"
    using i by (simp add: c r less_mult_imp_div_less)
  also have "colorAt byByte mapData (int (i div 256 * 256 + i mod 256))
               = the (byByte (unat (contents file ! i)))"
    using i known by (simp add: colorAt_def mapData_def slice_buf_def)
  finally show ?thesis using ctx by simp
qed

lemma drawMapSection_unknown_byte:
  assumes "i0 < 65536" and "i0 < length (contents file)"
    and "byByte (unat (contents file ! i0)) = None"
    and "\<forall>i < i0. byByte (unat (contents file ! i)) \<noteq> None"
  shows "drawMapSection byID file includeMarkers g =
           (g \<lparr> console := console g @ [AssertUnknownColorID (Some (unat (contents file ! i0)))] \<rparr>,
            Some TypeError)"
proof -
  define mapData where "mapData = slice_buf (contents file) 0 0x10000"
  have at: "byteAt mapData (int i0) = Some (unat (contents file ! i0))"
    using assms(1,2) by (simp add: byteAt_def mapData_def slice_buf_def)
  have bad: "\<not> knownAt mapPixelPalette mapData (int i0)"
    using assms(1-3) by (simp add: knownAt_map_iff mapData_def slice_buf_def)
  have good: "\<forall>i < i0. knownAt mapPixelPalette mapData (int i)"
    using assms(1,2,4) by (simp add: knownAt_map_iff mapData_def slice_buf_def)
  have "renderMap mapData (console g) =
          (Inl TypeError, console g @ [AssertUnknownColorID (byteAt mapData (int i0))])"
    using assms(1) bad good by (rule renderMap_fail)
  then show ?thesis
    unfolding mapData_def at [unfolded mapData_def] by (rule drawMapSection_map_error)
qed


text \<open>
  Claim C2, as the code has it. The visual layer is read column by column: when all
  of its 65536 bytes are there and known to the palette, byte \<open>i\<close> is painted on the floor
  raster at column \<open>(x - xMin) * 256 + i div 256\<close> and row \<open>(y - yMin) * 256 + i mod 256\<close>
  (where that pixel is on the raster), \<open>(x, y)\<close> being the coordinates of the tile.
\<close>

theorem visual_layer_column_major:
  assumes "\<forall>i < 65536. i < length (contents file)
              \<and> byByte (unat (contents file ! i)) \<noteq> None"
    and "i < 65536"
    and "int col = (cx (tileCoordinates file) - xMin (bounds g)) * 256 + int (i div 256)"
    and "int row = (cy (tileCoordinates file) - yMin (bounds g)) * 256 + int (i mod 256)"
    and "col < cwidth (mapContext g)" and "row < cheight (mapContext g)"
  shows "cpixels (mapContext (fst (drawMapSection byID file includeMarkers g))) col row =
           opaque (the (byByte (unat (contents file ! i))))"
  using assms by (rule visual_pixel)

lemma stripeFile_known:
  "\<forall>i < 65536. i < length (contents stripeFile)
       \<and> byByte (unat (contents stripeFile ! i)) \<noteq> None"
proof (intro allI impI)
  fix i :: nat assume i: "i < 65536"
  have "contents stripeFile ! i = (if i = 1 then 0xBA else 0)"
    using i by (auto simp: stripeFile_def nth_append nth_Cons')
  then show "i < length (contents stripeFile) \<and> byByte (unat (contents stripeFile ! i)) \<noteq> None"
    using i by (simp add: stripeFile_def byByte_def byByte_entries_def)
qed

lemma stripeFile_bytes:
  "contents stripeFile ! 1 = 0xBA" "contents stripeFile ! Suc 0 = 0xBA"
  "contents stripeFile ! 256 = 0"
  by (simp_all add: stripeFile_def nth_append)

lemma stripeFile_offsets:
  "cx (tileCoordinates stripeFile) = 127" "cy (tileCoordinates stripeFile) = 121"
  "xMin (bounds oneTileGlobals) = 127" "yMin (bounds oneTileGlobals) = 121"
  "cwidth (mapContext oneTileGlobals) = 256" "cheight (mapContext oneTileGlobals) = 256"
  by (simp_all add: stripeFile_def oneTileGlobals_def newCanvas_def)

lemma byByte_BA: "byByte 0xBA = Some (255, 51, 0)"
  by (simp add: byByte_def byByte_entries_def)

theorem visual_layer_column_major_witness:
  "contents stripeFile ! 1 = 0xBA
   \<and> cpixels (mapContext (fst (drawMapSection exampleIcons stripeFile True oneTileGlobals))) 0 1
       = (255, 51, 0, 255)"
proof -
  have "cpixels (mapContext (fst (drawMapSection exampleIcons stripeFile True oneTileGlobals))) 0 1
          = opaque (the (byByte (unat (contents stripeFile ! 1))))"
    by (rule visual_layer_column_major [OF stripeFile_known, where i = 1])
       (simp_all add: stripeFile_offsets)
  then show ?thesis
    by (simp add: stripeFile_bytes byByte_BA opaque_def)
qed

theorem visual_layer_row_major_counterexample:
  "contents stripeFile ! 1 = 0xBA
   \<and> opaque (the (byByte (unat (contents stripeFile ! 1)))) = (255, 51, 0, 255)
   \<and> cpixels (mapContext (fst (drawMapSection exampleIcons stripeFile True oneTileGlobals)))
         (1 mod 256) (1 div 256) = (0, 0, 0, 255)"
proof -
  have "cpixels (mapContext (fst (drawMapSection exampleIcons stripeFile True oneTileGlobals))) 1 0
          = opaque (the (byByte (unat (contents stripeFile ! 256))))"
    by (rule visual_pixel [OF stripeFile_known, where i = 256])
       (simp_all add: stripeFile_offsets)
  then show ?thesis
    by (simp add: stripeFile_bytes byByte_BA byByte_0 opaque_def)
qed

text \<open>
  Claim C7, as the code has it. When the visual layer of a tile has a byte that the
  visual palette does not have, \<open>drawMapSection\<close> prints the assertion message for the
  first such byte and ends there with a \<open>TypeError\<close>, because \<open>putImageData\<close> is called
  without an image: the positions after that byte are not processed, nothing of the
  tile reaches the floor rasters, and no marker is recorded.
\<close>

theorem unknown_visual_byte_raises:
  assumes "i0 < 65536" and "i0 < length (contents file)"
    and "byByte (unat (contents file ! i0)) = None"
    and "\<forall>i < i0. byByte (unat (contents file ! i)) \<noteq> None"
  shows "drawMapSection byID file includeMarkers g =
           (g \<lparr> console := console g @ [AssertUnknownColorID (Some (unat (contents file ! i0)))] \<rparr>,
            Some TypeError)"
  using assms by (rule drawMapSection_unknown_byte)

lemma byByte_unknown: "byByte 1 = None" "byByte (Suc 0) = None"
  by (simp_all add: byByte_def byByte_entries_def)

theorem unknown_visual_byte_raises_witness:
  "drawMapSection exampleIcons laterUnknownFile True oneTileGlobals =
     (oneTileGlobals \<lparr> console := [AssertUnknownColorID (Some 1)] \<rparr>, Some TypeError)"
proof -
  have bytes: "contents laterUnknownFile ! 0 = 0" "contents laterUnknownFile ! Suc 0 = 0xBA"
     "contents laterUnknownFile ! 2 = 1"
    by (simp_all add: laterUnknownFile_def)
  have len: "2 < length (contents laterUnknownFile)"
    by (simp add: laterUnknownFile_def)
  have first: "\<forall>i < 2. byByte (unat (contents laterUnknownFile ! i)) \<noteq> None"
  proof (intro allI impI)
    fix i :: nat assume "i < 2"
    then consider "i = 0" | "i = Suc 0" by linarith
    then show "byByte (unat (contents laterUnknownFile ! i)) \<noteq> None"
      by cases (simp_all add: bytes byByte_0 byByte_BA)
  qed
  from unknown_visual_byte_raises [of 2 laterUnknownFile exampleIcons True oneTileGlobals, OF _ len _ first]
  show ?thesis
    by (simp add: bytes byByte_unknown oneTileGlobals_def)
qed

theorem unknown_visual_byte_counterexample:
  "drawMapSection exampleIcons unknownFile True oneTileGlobals =
     (oneTileGlobals \<lparr> console := [AssertUnknownColorID (Some 1)] \<rparr>, Some TypeError)"
proof -
  have bytes: "contents unknownFile ! 0 = 1"
    by (simp add: unknownFile_def)
  have len: "0 < length (contents unknownFile)"
    by (simp add: unknownFile_def)
  from drawMapSection_unknown_byte [of 0 unknownFile exampleIcons True oneTileGlobals, OF _ len]
  show ?thesis
    by (simp add: bytes byByte_unknown oneTileGlobals_def)
qed

end
